theory Spec2Isabelle
  imports Complex_Main
begin

section \<open>Configuration constants (js/config.js, CONFIG)\<close>

text \<open>
  A tile's \<open>type\<close> is a string of \<open>CONFIG.TILE_TYPES\<close>. The constructor \<open>UNDEFINED\<close>
  stands for the JavaScript value \<open>undefined\<close>, which a tile's type takes when a colour is
  drawn from an empty palette (\<open>types[0]\<close> of an empty array).
\<close>

datatype tile_type =
  EMPTY | RED | BLUE | GREEN | YELLOW | PURPLE | STONE | ICE | LOCKED | EXIT | CHARACTER | UNDEFINED

definition MATCHABLE_COLORS :: "tile_type list" where
  "MATCHABLE_COLORS = [RED, BLUE, GREEN, YELLOW, PURPLE]"

datatype special_tile = LINE_H | LINE_V | BOMB

definition MIN_MATCH :: int where
  "MIN_MATCH = 3"

definition LINE_CLEAR_COUNT :: int where
  "LINE_CLEAR_COUNT = 4"

definition BOMB_COUNT :: int where
  "BOMB_COUNT = 5"

datatype game_state = IDLE | SWAPPING | MATCHING | FALLING | CHARACTER_MOVING | WIN | LOSE

text \<open>\<open>Object.values(CONFIG.DIRECTIONS)\<close>: UP, DOWN, LEFT, RIGHT as (dx, dy).\<close>

definition DIRECTIONS :: "(int \<times> int) list" where
  "DIRECTIONS = [(0, -1), (0, 1), (-1, 0), (1, 0)]"

section \<open>Tile (entities/Tile.js)\<close>

text \<open>
  The DOM handle \<open>element\<close> is presentation only and is left out; every other field of
  the class is a field of the record. Coordinates are JavaScript numbers used as integers.
\<close>

record tile =
  tileType :: tile_type
  tileX :: int
  tileY :: int
  isMatched :: bool
  isFalling :: bool
  isSpecial :: bool
  specialType :: "special_tile option"
  iceLayer :: int
  isLocked :: bool

definition newTile :: "tile_type \<Rightarrow> int \<Rightarrow> int \<Rightarrow> tile" where
  "newTile tp x y =
     \<lparr>tileType = tp, tileX = x, tileY = y, isMatched = False, isFalling = False,
      isSpecial = False, specialType = None, iceLayer = 0, isLocked = False\<rparr>"

definition isMatchable :: "tile \<Rightarrow> bool" where
  "isMatchable t = (tileType t \<in> set MATCHABLE_COLORS \<and> \<not> isLocked t)"

definition isEmpty :: "tile \<Rightarrow> bool" where
  "isEmpty t = (tileType t = EMPTY)"

definition isBlocker :: "tile \<Rightarrow> bool" where
  "isBlocker t = (tileType t = STONE)"

definition isCharacter :: "tile \<Rightarrow> bool" where
  "isCharacter t = (tileType t = CHARACTER)"

definition isExit :: "tile \<Rightarrow> bool" where
  "isExit t = (tileType t = EXIT)"

definition canSwap :: "tile \<Rightarrow> bool" where
  "canSwap t = (isMatchable t \<and> \<not> isFalling t \<and> \<not> isLocked t)"

definition setSpecial :: "special_tile \<Rightarrow> tile \<Rightarrow> tile" where
  "setSpecial sp t = t\<lparr>isSpecial := True, specialType := Some sp\<rparr>"

definition addIce :: "int \<Rightarrow> tile \<Rightarrow> tile" where
  "addIce layers t = t\<lparr>iceLayer := layers\<rparr>"

text \<open>\<open>removeIceLayer\<close> returns the mutated tile and the boolean the method returns.\<close>

definition removeIceLayer :: "tile \<Rightarrow> tile \<times> bool" where
  "removeIceLayer t =
     (if iceLayer t > 0 then (t\<lparr>iceLayer := iceLayer t - 1\<rparr>, True) else (t, False))"

definition lock :: "tile \<Rightarrow> tile" where
  "lock t = t\<lparr>isLocked := True\<rparr>"

definition unlock :: "tile \<Rightarrow> tile" where
  "unlock t = t\<lparr>isLocked := False\<rparr>"

section \<open>GridManager (managers/GridManager.js)\<close>

text \<open>
  The grid is the array of rows \<open>this.grid[y][x]\<close>. A JavaScript array is a partial map
  from indices to values, so a row is a function from the column index to an optional
  tile: \<open>None\<close> is \<open>null\<close> or \<open>undefined\<close>, both of which the code treats alike (it only
  tests truthiness, or \<open>=== null\<close> on cells it has itself set to \<open>null\<close>). The rows
  themselves exist for \<open>0 \<le> y < height\<close>, as \<open>initialize\<close> creates them; reading
  \<open>this.grid[y]\<close> for another \<open>y\<close> gives \<open>undefined\<close> and indexing it raises a TypeError.
  Every cell holds its own Tile object (each is made by \<open>new Tile\<close> and moved, never
  copied by reference into a second cell), so tiles are values here.

  \<open>tileTypes\<close> and \<open>characterPosition\<close> are optional because the code tests them for
  \<open>undefined\<close> (\<open>this.gridManager.tileTypes || ...\<close>, \<open>charPos && ...\<close>).
\<close>

record grid_manager =
  width :: int
  height :: int
  grid :: "int \<Rightarrow> int \<Rightarrow> tile option"
  tileTypes :: "tile_type list option"
  exitPosition :: "int \<times> int"
  characterPosition :: "(int \<times> int) option"

datatype error = TypeError | OutOfFuel

definition isValidPosition :: "grid_manager \<Rightarrow> int \<Rightarrow> int \<Rightarrow> bool" where
  "isValidPosition g x y = (x \<ge> 0 \<and> x < width g \<and> y \<ge> 0 \<and> y < height g)"

definition getTile :: "grid_manager \<Rightarrow> int \<Rightarrow> int \<Rightarrow> tile option" where
  "getTile g x y = (if isValidPosition g x y then grid g y x else None)"

text \<open>\<open>writeCell\<close> is the assignment \<open>this.grid[y][x] = v\<close> on an existing row.\<close>

definition writeCell :: "grid_manager \<Rightarrow> int \<Rightarrow> int \<Rightarrow> tile option \<Rightarrow> grid_manager" where
  "writeCell g x y v = g\<lparr>grid := (grid g)(y := (grid g y)(x := v))\<rparr>"

text \<open>\<open>setTile\<close> stores the tile and sets the tile's own coordinates; every caller passes a tile.\<close>

definition setTile :: "grid_manager \<Rightarrow> int \<Rightarrow> int \<Rightarrow> tile \<Rightarrow> grid_manager" where
  "setTile g x y t =
     (if isValidPosition g x y then writeCell g x y (Some (t\<lparr>tileX := x, tileY := y\<rparr>)) else g)"

definition setEmpty :: "grid_manager \<Rightarrow> int \<Rightarrow> int \<Rightarrow> grid_manager" where
  "setEmpty g x y = setTile g x y (newTile EMPTY x y)"

definition areAdjacent :: "int \<Rightarrow> int \<Rightarrow> int \<Rightarrow> int \<Rightarrow> bool" where
  "areAdjacent x1 y1 x2 y2 =
     (let dx = \<bar>x1 - x2\<bar>; dy = \<bar>y1 - y2\<bar> in (dx = 1 \<and> dy = 0) \<or> (dx = 0 \<and> dy = 1))"

text \<open>
  \<open>swap\<close> indexes the rows directly: a row index outside \<open>0 \<le> y < height\<close> raises a
  TypeError. The two cells exchange their contents and each tile that is not null takes
  the coordinates of its new cell.
\<close>

definition swap :: "grid_manager \<Rightarrow> int \<Rightarrow> int \<Rightarrow> int \<Rightarrow> int \<Rightarrow> error + grid_manager" where
  "swap g x1 y1 x2 y2 =
     (if 0 \<le> y1 \<and> y1 < height g \<and> 0 \<le> y2 \<and> y2 < height g then
        (let tile1 = grid g y1 x1;
             tile2 = grid g y2 x2;
             g1 = writeCell g x1 y1 (map_option (\<lambda>t. t\<lparr>tileX := x1, tileY := y1\<rparr>) tile2);
             g2 = writeCell g1 x2 y2 (map_option (\<lambda>t. t\<lparr>tileX := x2, tileY := y2\<rparr>) tile1)
         in Inr g2)
      else Inl TypeError)"

definition updateCharacterPosition ::
  "grid_manager \<Rightarrow> int \<Rightarrow> int \<Rightarrow> int \<Rightarrow> int \<Rightarrow> grid_manager" where
  "updateCharacterPosition g oldX oldY newX newY =
     (let g1 = (if \<not> (oldX = fst (exitPosition g) \<and> oldY = snd (exitPosition g))
                then setEmpty g oldX oldY else g)
      in g1\<lparr>characterPosition := Some (newX, newY)\<rparr>)"

text \<open>The in-place mutation of the Tile object that sits in a cell.\<close>

definition updateTileAt :: "grid_manager \<Rightarrow> int \<Rightarrow> int \<Rightarrow> (tile \<Rightarrow> tile) \<Rightarrow> grid_manager" where
  "updateTileAt g x y f = writeCell g x y (map_option f (grid g y x))"

section \<open>MatchResolver (managers/MatchResolver.js)\<close>

datatype orientation = Horizontal | Vertical

record tile_match =
  tiles :: "(int \<times> int) list"
  matchType :: orientation
  matchLength :: int
  color :: tile_type

text \<open>\<open>tile?.isMatchable() ? tile.type : null\<close>\<close>

definition matchableType :: "grid_manager \<Rightarrow> int \<Rightarrow> int \<Rightarrow> tile_type option" where
  "matchableType g x y =
     (case getTile g x y of
        None \<Rightarrow> None
      | Some t \<Rightarrow> if isMatchable t then Some (tileType t) else None)"

text \<open>
  One iteration of the inner loop of the horizontal scan of row \<open>y\<close> at column \<open>x\<close>; the
  loop state is (matchStart, currentType, matches). The set \<open>visited\<close> of the source is
  written and never read, so it is left out.
\<close>

definition hScanStep ::
  "grid_manager \<Rightarrow> int \<Rightarrow> int \<Rightarrow> int \<times> tile_type option \<times> tile_match list
     \<Rightarrow> int \<times> tile_type option \<times> tile_match list" where
  "hScanStep g y x st =
     (case st of (matchStart, currentType, matches) \<Rightarrow>
        (let tp = matchableType g x y in
         if tp = currentType \<and> currentType \<noteq> None then st
         else
           (let len = x - matchStart;
                matches' =
                  (case currentType of
                     None \<Rightarrow> matches
                   | Some c \<Rightarrow>
                       if len \<ge> MIN_MATCH then
                         matches @ [\<lparr>tiles = map (\<lambda>mx. (mx, y)) [matchStart..x - 1],
                                     matchType = Horizontal, matchLength = len, color = c\<rparr>]
                       else matches)
            in (x, tp, matches'))))"

definition vScanStep ::
  "grid_manager \<Rightarrow> int \<Rightarrow> int \<Rightarrow> int \<times> tile_type option \<times> tile_match list
     \<Rightarrow> int \<times> tile_type option \<times> tile_match list" where
  "vScanStep g x y st =
     (case st of (matchStart, currentType, matches) \<Rightarrow>
        (let tp = matchableType g x y in
         if tp = currentType \<and> currentType \<noteq> None then st
         else
           (let len = y - matchStart;
                matches' =
                  (case currentType of
                     None \<Rightarrow> matches
                   | Some c \<Rightarrow>
                       if len \<ge> MIN_MATCH then
                         matches @ [\<lparr>tiles = map (\<lambda>my. (x, my)) [matchStart..y - 1],
                                     matchType = Vertical, matchLength = len, color = c\<rparr>]
                       else matches)
            in (y, tp, matches'))))"

text \<open>A whole row (column): the scan runs over \<open>0 .. width\<close> (\<open>0 .. height\<close>) inclusive.\<close>

definition hScanRow :: "grid_manager \<Rightarrow> int \<Rightarrow> tile_match list \<Rightarrow> tile_match list" where
  "hScanRow g y matches = snd (snd (fold (hScanStep g y) [0..width g] (0, None, matches)))"

definition vScanColumn :: "grid_manager \<Rightarrow> int \<Rightarrow> tile_match list \<Rightarrow> tile_match list" where
  "vScanColumn g x matches = snd (snd (fold (vScanStep g x) [0..height g] (0, None, matches)))"

definition findAllMatches :: "grid_manager \<Rightarrow> tile_match list" where
  "findAllMatches g =
     fold (vScanColumn g) [0..width g - 1] (fold (hScanRow g) [0..height g - 1] [])"

record special =
  specialKind :: special_tile
  position :: "(int \<times> int) option"
  specialColor :: tile_type

text \<open>
  \<open>match.tiles[centerIndex]\<close> is \<open>undefined\<close> (\<open>None\<close>) when the index is not below the
  length of the array.
\<close>

definition tileAtIndex :: "(int \<times> int) list \<Rightarrow> nat \<Rightarrow> (int \<times> int) option" where
  "tileAtIndex ps i = (if i < length ps then Some (ps ! i) else None)"

definition getSpecialTileForMatch :: "tile_match \<Rightarrow> special option" where
  "getSpecialTileForMatch m =
     (if matchLength m \<ge> BOMB_COUNT then
        (let centerIndex = length (tiles m) div 2 in
         Some \<lparr>specialKind = BOMB, position = tileAtIndex (tiles m) centerIndex,
               specialColor = color m\<rparr>)
      else if matchLength m \<ge> LINE_CLEAR_COUNT then
        (let centerIndex = length (tiles m) div 2;
             sp = (if matchType m = Horizontal then LINE_V else LINE_H) in
         Some \<lparr>specialKind = sp, position = tileAtIndex (tiles m) centerIndex,
               specialColor = color m\<rparr>)
      else None)"

definition affectedCell :: "grid_manager \<Rightarrow> int \<Rightarrow> int \<Rightarrow> bool" where
  "affectedCell g px py =
     (case getTile g px py of
        None \<Rightarrow> False
      | Some t \<Rightarrow> \<not> isBlocker t \<and> \<not> isCharacter t \<and> \<not> isExit t)"

definition getSpecialTileAffectedPositions ::
  "grid_manager \<Rightarrow> int \<Rightarrow> int \<Rightarrow> special_tile \<Rightarrow> (int \<times> int) list" where
  "getSpecialTileAffectedPositions g x y sp =
     (case sp of
        LINE_H \<Rightarrow> map (\<lambda>px. (px, y)) (filter (\<lambda>px. affectedCell g px y) [0..width g - 1])
      | LINE_V \<Rightarrow> map (\<lambda>py. (x, py)) (filter (\<lambda>py. affectedCell g x py) [0..height g - 1])
      | BOMB \<Rightarrow>
          concat (map (\<lambda>py. map (\<lambda>px. (px, py))
                               (filter (\<lambda>px. affectedCell g px py) [x - 1..x + 1]))
                      [y - 1..y + 1]))"

text \<open>
  \<open>unlockAdjacentTiles\<close>: the tiles of the up to four neighbours in bounds, each unlocked
  in place when it is locked.
\<close>

definition unlockAdjacentTiles :: "grid_manager \<Rightarrow> int \<Rightarrow> int \<Rightarrow> grid_manager" where
  "unlockAdjacentTiles g x y =
     fold (\<lambda>d g'. (case getTile g' (x + fst d) (y + snd d) of
                      None \<Rightarrow> g'
                    | Some t \<Rightarrow> if isLocked t then updateTileAt g' (x + fst d) (y + snd d) unlock
                               else g'))
          DIRECTIONS g"

text \<open>
  The body of \<open>match.tiles.forEach\<close> in \<open>processMatches\<close>; the state is the grid, the set
  \<open>processed\<close> (keys \<open>"x,y"\<close>, here the pairs themselves) and \<open>clearedPositions\<close>.
\<close>

definition processTile ::
  "int \<times> int \<Rightarrow> grid_manager \<times> (int \<times> int) set \<times> (int \<times> int) list
     \<Rightarrow> grid_manager \<times> (int \<times> int) set \<times> (int \<times> int) list" where
  "processTile pos st =
     (case st of (g, processed, cleared) \<Rightarrow>
        if pos \<in> processed then st
        else
          (let processed' = insert pos processed in
           case getTile g (fst pos) (snd pos) of
             None \<Rightarrow> (g, processed', cleared)
           | Some t \<Rightarrow>
               if iceLayer t > 0 then
                 (let g1 = updateTileAt g (fst pos) (snd pos) (\<lambda>u. fst (removeIceLayer u)) in
                  if iceLayer (fst (removeIceLayer t)) > 0 then (g1, processed', cleared)
                  else (unlockAdjacentTiles g1 (fst pos) (snd pos), processed', cleared @ [pos]))
               else (unlockAdjacentTiles g (fst pos) (snd pos), processed', cleared @ [pos])))"

text \<open>The body of \<open>matches.forEach\<close>; \<open>specialTiles\<close> is the fourth component.\<close>

definition processMatch ::
  "tile_match \<Rightarrow> grid_manager \<times> (int \<times> int) set \<times> (int \<times> int) list \<times> special list
     \<Rightarrow> grid_manager \<times> (int \<times> int) set \<times> (int \<times> int) list \<times> special list" where
  "processMatch m st =
     (case st of (g, processed, cleared, specials) \<Rightarrow>
        (let specials' = (case getSpecialTileForMatch m of
                            None \<Rightarrow> specials
                          | Some s \<Rightarrow> specials @ [s]);
             r = fold processTile (tiles m) (g, processed, cleared)
         in (fst r, fst (snd r), snd (snd r), specials')))"

text \<open>\<open>processMatches\<close> returns the mutated grid, \<open>clearedPositions\<close> and \<open>specialTiles\<close>.\<close>

definition processMatches ::
  "grid_manager \<Rightarrow> tile_match list \<Rightarrow> grid_manager \<times> (int \<times> int) list \<times> special list" where
  "processMatches g matches =
     (let r = fold processMatch matches (g, {}, [], [])
      in (fst r, fst (snd (snd r)), snd (snd (snd r))))"

text \<open>\<open>MatchResolver.checkForMatchAt\<close>: the run through (x, y) along each axis.\<close>

fun countRun :: "grid_manager \<Rightarrow> tile_type \<Rightarrow> (int \<times> int) list \<Rightarrow> int" where
  "countRun g tp [] = 0"
| "countRun g tp (p # ps) =
     (case getTile g (fst p) (snd p) of
        None \<Rightarrow> 0
      | Some t \<Rightarrow> if tileType t = tp \<and> isMatchable t then 1 + countRun g tp ps else 0)"

definition checkForMatchAt :: "grid_manager \<Rightarrow> int \<Rightarrow> int \<Rightarrow> bool" where
  "checkForMatchAt g x y =
     (case getTile g x y of
        None \<Rightarrow> False
      | Some t \<Rightarrow>
          if \<not> isMatchable t then False
          else
            (let hCount = 1 + countRun g (tileType t) (map (\<lambda>i. (i, y)) (rev [0..x - 1]))
                            + countRun g (tileType t) (map (\<lambda>i. (i, y)) [x + 1..width g - 1])
             in if hCount \<ge> MIN_MATCH then True
                else
                  (let vCount = 1 + countRun g (tileType t) (map (\<lambda>j. (x, j)) (rev [0..y - 1]))
                                  + countRun g (tileType t) (map (\<lambda>j. (x, j)) [y + 1..height g - 1])
                   in vCount \<ge> MIN_MATCH)))"

definition checkSwapForMatches :: "grid_manager \<Rightarrow> int \<Rightarrow> int \<Rightarrow> int \<Rightarrow> int \<Rightarrow> bool" where
  "checkSwapForMatches g x1 y1 x2 y2 = (checkForMatchAt g x1 y1 \<or> checkForMatchAt g x2 y2)"

section \<open>GridManager.createNonMatchingTile\<close>

text \<open>
  \<open>excludeRun\<close> is one of the two exclusion blocks of \<open>createNonMatchingTile\<close>:
  \<open>indexOf\<close> and \<open>splice(index, 1)\<close> remove the first occurrence of the colour. Both
  callers pass a cell in bounds, so the rows \<open>y\<close>, \<open>y - 1\<close> and \<open>y - 2\<close> that are read exist.
\<close>

definition excludeRun :: "tile option \<Rightarrow> tile option \<Rightarrow> tile_type list \<Rightarrow> tile_type list" where
  "excludeRun n1 n2 availableTypes =
     (case n1 of
        None \<Rightarrow> availableTypes
      | Some a \<Rightarrow>
          (case n2 of
             None \<Rightarrow> availableTypes
           | Some b \<Rightarrow>
               if tileType a = tileType b \<and> isMatchable a
               then remove1 (tileType a) availableTypes else availableTypes))"

definition availableTypes :: "grid_manager \<Rightarrow> int \<Rightarrow> int \<Rightarrow> tile_type list \<Rightarrow> tile_type list" where
  "availableTypes g x y tps =
     (let a1 = (if x \<ge> 2 then excludeRun (grid g y (x - 1)) (grid g y (x - 2)) tps else tps);
          a2 = (if y \<ge> 2 then excludeRun (grid g (y - 1) x) (grid g (y - 2) x) a1 else a1)
      in a2)"

text \<open>\<open>types\<close>: the list the random index is drawn over, with the fallback to the palette.\<close>

definition candidateTypes :: "grid_manager \<Rightarrow> int \<Rightarrow> int \<Rightarrow> tile_type list \<Rightarrow> tile_type list" where
  "candidateTypes g x y tps =
     (let a = availableTypes g x y tps in if length a > 0 then a else tps)"

text \<open>
  \<open>types[Math.floor(Math.random() * types.length)]\<close>, where \<open>r\<close> is the value of
  \<open>Math.random()\<close>, a number with \<open>0 \<le> r < 1\<close>; an index outside the array reads \<open>undefined\<close>.
\<close>

definition pickRandom :: "tile_type list \<Rightarrow> real \<Rightarrow> tile_type" where
  "pickRandom types r =
     (let k = \<lfloor>r * real (length types)\<rfloor>
      in if 0 \<le> k \<and> k < int (length types) then types ! nat k else UNDEFINED)"

definition createNonMatchingTile ::
  "grid_manager \<Rightarrow> int \<Rightarrow> int \<Rightarrow> tile_type list \<Rightarrow> real \<Rightarrow> tile" where
  "createNonMatchingTile g x y tps r = newTile (pickRandom (candidateTypes g x y tps) r) x y"

section \<open>GravitySystem (managers/GravitySystem.js)\<close>

record movement =
  fromX :: int
  fromY :: int
  toX :: int
  toY :: int

definition isPositionFixed :: "grid_manager \<Rightarrow> int \<Rightarrow> int \<Rightarrow> bool" where
  "isPositionFixed g x y =
     (let tl = getTile g x y in
      if (case characterPosition g of None \<Rightarrow> False | Some c \<Rightarrow> x = fst c \<and> y = snd c) then True
      else if (case tl of None \<Rightarrow> False | Some t \<Rightarrow> isExit t) then True
      else if (case tl of None \<Rightarrow> False | Some t \<Rightarrow> isBlocker t) then True
      else False)"

text \<open>
  The inner search loop of \<open>applyGravity\<close> over \<open>searchY = emptyY - 1, ..., 0\<close>: the first
  row that is not fixed and holds a tile that can fall, with that tile.
\<close>

fun findFalling :: "grid_manager \<Rightarrow> int \<Rightarrow> int list \<Rightarrow> (int \<times> tile) option" where
  "findFalling g x [] = None"
| "findFalling g x (searchY # rest) =
     (if isPositionFixed g x searchY then findFalling g x rest
      else
        (case getTile g x searchY of
           None \<Rightarrow> findFalling g x rest
         | Some t \<Rightarrow>
             if \<not> isEmpty t \<and> \<not> isBlocker t \<and> isMatchable t then Some (searchY, t)
             else findFalling g x rest))"

text \<open>The body of \<open>emptyPositions.forEach\<close>.\<close>

definition fillEmpty ::
  "int \<Rightarrow> int \<Rightarrow> grid_manager \<times> movement list \<Rightarrow> grid_manager \<times> movement list" where
  "fillEmpty x emptyY st =
     (case st of (g, movements) \<Rightarrow>
        (case findFalling g x (rev [0..emptyY - 1]) of
           None \<Rightarrow> st
         | Some (searchY, t) \<Rightarrow>
             (setEmpty (setTile g x emptyY t) x searchY,
              movements @ [\<lparr>fromX = x, fromY = searchY, toX = x, toY = emptyY\<rparr>])))"

text \<open>The empty positions of column \<open>x\<close> that are not fixed, from the bottom row up.\<close>

definition emptyPositions :: "grid_manager \<Rightarrow> int \<Rightarrow> int list" where
  "emptyPositions g x =
     filter (\<lambda>y. \<not> isPositionFixed g x y \<and>
                  (case getTile g x y of None \<Rightarrow> False | Some t \<Rightarrow> isEmpty t))
            (rev [0..height g - 1])"

definition applyGravityColumn ::
  "int \<Rightarrow> grid_manager \<times> movement list \<Rightarrow> grid_manager \<times> movement list" where
  "applyGravityColumn x st = fold (fillEmpty x) (emptyPositions (fst st) x) st"

definition applyGravity :: "grid_manager \<Rightarrow> grid_manager \<times> movement list" where
  "applyGravity g = fold applyGravityColumn [0..width g - 1] (g, [])"

text \<open>
  \<open>applyGravityFully\<close> is a do-while loop that stops at the first pass without a movement.
  It terminates because every movement takes a matchable tile to a lower row: the sum over
  the cells holding a matchable tile of their distance to the bottom edge decreases.
\<close>


definition fallWeight :: "grid_manager \<Rightarrow> int \<times> int \<Rightarrow> nat" where
  "fallWeight g p =
     (case getTile g (fst p) (snd p) of
        None \<Rightarrow> 0
      | Some t \<Rightarrow> if isMatchable t then nat (height g - snd p) else 0)"

definition potential :: "grid_manager \<Rightarrow> nat" where
  "potential g = sum (fallWeight g) ({0..width g - 1} \<times> {0..height g - 1})"

lemma findFalling_Some:
  "findFalling g x ys = Some (s, t) \<Longrightarrow>
     s \<in> set ys \<and> getTile g x s = Some t \<and> isMatchable t \<and> \<not> isPositionFixed g x s \<and> \<not> isEmpty t"
  by (induction ys) (auto split: if_splits option.splits)

lemma getTile_setTile:
  "getTile (setTile g x y t) x' y' =
     (if isValidPosition g x y \<and> x' = x \<and> y' = y then Some (t\<lparr>tileX := x, tileY := y\<rparr>)
      else getTile g x' y')"
  by (auto simp: getTile_def setTile_def writeCell_def isValidPosition_def)

lemma setTile_dims [simp]:
  "width (setTile g x y t) = width g" "height (setTile g x y t) = height g"
  "characterPosition (setTile g x y t) = characterPosition g"
  "exitPosition (setTile g x y t) = exitPosition g"
  "tileTypes (setTile g x y t) = tileTypes g"
  by (auto simp: setTile_def writeCell_def)

lemma isValidPosition_setTile [simp]:
  "isValidPosition (setTile g x y t) x' y' = isValidPosition g x' y'"
  by (simp add: isValidPosition_def)

lemma getTile_setEmpty:
  "getTile (setEmpty g x y) x' y' =
     (if isValidPosition g x y \<and> x' = x \<and> y' = y then Some (newTile EMPTY x y)
      else getTile g x' y')"
  by (auto simp: setEmpty_def getTile_setTile newTile_def)

lemma setEmpty_dims [simp]:
  "width (setEmpty g x y) = width g" "height (setEmpty g x y) = height g"
  "characterPosition (setEmpty g x y) = characterPosition g"
  "exitPosition (setEmpty g x y) = exitPosition g"
  "tileTypes (setEmpty g x y) = tileTypes g"
  by (auto simp: setEmpty_def)

lemma isValidPosition_setEmpty [simp]:
  "isValidPosition (setEmpty g x y) x' y' = isValidPosition g x' y'"
  by (simp add: isValidPosition_def)

lemma isMatchable_coords [simp]: "isMatchable (t\<lparr>tileX := a, tileY := b\<rparr>) = isMatchable t"
  by (simp add: isMatchable_def)

lemma not_matchable_empty [simp]: "\<not> isMatchable (newTile EMPTY x y)"
  by (simp add: isMatchable_def newTile_def MATCHABLE_COLORS_def)

lemma fallWeight_eq:
  "getTile g' (fst p) (snd p) = getTile g (fst p) (snd p) \<Longrightarrow> height g' = height g \<Longrightarrow>
     fallWeight g' p = fallWeight g p"
  by (simp add: fallWeight_def split: option.splits)

lemma potential_move:
  assumes src: "getTile g x s = Some t" "isMatchable t" and lt: "s < e"
  shows "potential (setEmpty (setTile g x e t) x s) < potential g"
proof -
  let ?g' = "setEmpty (setTile g x e t) x s"
  let ?C = "{0..width g - 1} \<times> {0..height g - 1}"
  have vs: "isValidPosition g x s" using src by (auto simp: getTile_def split: if_splits)
  then have sC: "(x, s) \<in> ?C" by (auto simp: isValidPosition_def)
  have hs: "s < height g" "0 \<le> s" using vs by (auto simp: isValidPosition_def)
  have ws: "fallWeight g (x, s) = nat (height g - s)" using src by (simp add: fallWeight_def)
  have ws': "fallWeight ?g' (x, s) = 0" using vs by (simp add: fallWeight_def getTile_setEmpty)
  have fin: "finite ?C" by simp
  have split: "sum (fallWeight h) ?C = fallWeight h (x, s) + sum (fallWeight h) (?C - {(x, s)})" for h
    by (rule sum.remove[OF fin sC])
  have rest: "sum (fallWeight ?g') (?C - {(x, s)}) \<le> sum (fallWeight g) (?C - {(x, s)}) + nat (height g - e)"
  proof (cases "(x, e) \<in> ?C")
    case True
    then have eD: "(x, e) \<in> ?C - {(x, s)}" using lt by auto
    have finD: "finite (?C - {(x, s)})" by simp
    have a: "sum (fallWeight h) (?C - {(x, s)}) = fallWeight h (x, e) + sum (fallWeight h) (?C - {(x, s)} - {(x, e)})" for h
      by (rule sum.remove[OF finD eD])
    have b: "sum (fallWeight ?g') (?C - {(x, s)} - {(x, e)}) = sum (fallWeight g) (?C - {(x, s)} - {(x, e)})"
    proof (rule sum.cong[OF refl])
      fix p assume "p \<in> ?C - {(x, s)} - {(x, e)}"
      then have "p \<noteq> (x, s)" "p \<noteq> (x, e)" by auto
      then have "getTile ?g' (fst p) (snd p) = getTile g (fst p) (snd p)"
        by (cases p) (auto simp: getTile_setEmpty getTile_setTile)
      then show "fallWeight ?g' p = fallWeight g p" by (rule fallWeight_eq) simp
    qed
    have c: "fallWeight ?g' (x, e) \<le> nat (height g - e)"
      by (auto simp: fallWeight_def getTile_setEmpty getTile_setTile split: option.splits)
    show ?thesis using a[of ?g'] a[of g] b c by linarith
  next
    case False
    then have "\<not> isValidPosition g x e" using sC by (auto simp: isValidPosition_def)
    then have nv: "\<not> isValidPosition g x e" .
    have "sum (fallWeight ?g') (?C - {(x, s)}) = sum (fallWeight g) (?C - {(x, s)})"
    proof (rule sum.cong[OF refl])
      fix p assume "p \<in> ?C - {(x, s)}"
      then have "p \<noteq> (x, s)" by auto
      then have "getTile ?g' (fst p) (snd p) = getTile g (fst p) (snd p)"
        using nv by (cases p) (auto simp: getTile_setEmpty getTile_setTile)
      then show "fallWeight ?g' p = fallWeight g p" by (rule fallWeight_eq) simp
    qed
    then show ?thesis by simp
  qed
  have lt': "nat (height g - e) < nat (height g - s)" using lt hs by linarith
  have P': "potential ?g' = sum (fallWeight ?g') ?C" by (simp add: potential_def)
  have P: "potential g = sum (fallWeight g) ?C" by (simp add: potential_def)
  show ?thesis using P P' split[of ?g'] split[of g] ws ws' rest lt' by linarith
qed

lemma fillEmpty_cases:
  assumes "fillEmpty x e (g, ms) = (g', ms')"
  shows "(g' = g \<and> ms' = ms) \<or>
         (potential g' < potential g \<and> (\<exists>m. ms' = ms @ [m]))"
proof (cases "findFalling g x (rev [0..e - 1])")
  case None
  then show ?thesis using assms by (simp add: fillEmpty_def)
next
  case (Some a)
  obtain s t where a: "a = (s, t)" by (cases a)
  from findFalling_Some[OF Some[unfolded a]]
  have "s < e" "getTile g x s = Some t" "isMatchable t" by auto
  then have "potential (setEmpty (setTile g x e t) x s) < potential g"
    by (intro potential_move) auto
  then show ?thesis using assms Some a by (auto simp: fillEmpty_def)
qed

definition gravityProgress :: "grid_manager \<times> movement list \<Rightarrow> grid_manager \<times> movement list \<Rightarrow> bool" where
  "gravityProgress st st' =
     (st' = st \<or> (potential (fst st') < potential (fst st) \<and> length (snd st) < length (snd st')))"

lemma gravityProgress_refl: "gravityProgress st st"
  by (simp add: gravityProgress_def)

lemma gravityProgress_trans:
  "gravityProgress a b \<Longrightarrow> gravityProgress b c \<Longrightarrow> gravityProgress a c"
  by (auto simp: gravityProgress_def)

lemma fold_gravityProgress:
  assumes "\<And>x st. gravityProgress st (f x st)"
  shows "gravityProgress st (fold f xs st)"
proof (induction xs arbitrary: st)
  case Nil
  show ?case by (simp add: gravityProgress_refl)
next
  case (Cons x xs)
  show ?case using gravityProgress_trans[OF assms Cons.IH] by simp
qed

lemma fillEmpty_progress: "gravityProgress st (fillEmpty x e st)"
proof -
  obtain g ms where st: "st = (g, ms)" by (cases st)
  obtain g' ms' where r: "fillEmpty x e (g, ms) = (g', ms')" by (cases "fillEmpty x e (g, ms)")
  show ?thesis using fillEmpty_cases[OF r] st r by (auto simp: gravityProgress_def)
qed

lemma applyGravityColumn_progress: "gravityProgress st (applyGravityColumn x st)"
  unfolding applyGravityColumn_def by (rule fold_gravityProgress) (rule fillEmpty_progress)

lemma applyGravity_progress: "gravityProgress (g, []) (applyGravity g)"
  unfolding applyGravity_def by (rule fold_gravityProgress) (rule applyGravityColumn_progress)

lemma applyGravity_decreases:
  "length (snd (applyGravity g)) > 0 \<Longrightarrow> potential (fst (applyGravity g)) < potential g"
  using applyGravity_progress[of g] by (auto simp: gravityProgress_def)

lemma applyGravity_no_movement:
  "snd (applyGravity g) = [] \<Longrightarrow> fst (applyGravity g) = g"
  using applyGravity_progress[of g] by (auto simp: gravityProgress_def)

function applyGravityFully :: "grid_manager \<Rightarrow> grid_manager \<times> movement list list" where
  "applyGravityFully g =
     (let r = applyGravity g in
      if length (snd r) > 0 then
        (let rest = applyGravityFully (fst r) in (fst rest, snd r # snd rest))
      else (fst r, []))"
  by pat_completeness auto
termination
  by (relation "measure potential") (auto intro: applyGravity_decreases)

declare applyGravityFully.simps [simp del]


record spawn =
  spawnX :: int
  spawnY :: int
  spawnTile :: tile

text \<open>
  The random source is the sequence of the values that the coming calls of
  \<open>Math.random()\<close> return: \<open>rnd 0\<close> is the next one, and a call leaves \<open>\<lambda>n. rnd (Suc n)\<close>.
\<close>

definition spawnAt ::
  "tile_type list \<Rightarrow> int \<Rightarrow> int \<Rightarrow> grid_manager \<times> (nat \<Rightarrow> real) \<times> spawn list
     \<Rightarrow> grid_manager \<times> (nat \<Rightarrow> real) \<times> spawn list" where
  "spawnAt tps x y st =
     (case st of (g, rnd, newTiles) \<Rightarrow>
        if isPositionFixed g x y then st
        else
          (case getTile g x y of
             None \<Rightarrow> st
           | Some t \<Rightarrow>
               if isEmpty t then
                 (let newT = createNonMatchingTile g x y tps (rnd 0) in
                  (setTile g x y newT, (\<lambda>n. rnd (Suc n)),
                   newTiles @ [\<lparr>spawnX = x, spawnY = y, spawnTile = newT\<rparr>]))
               else st))"

definition spawnNewTiles ::
  "(nat \<Rightarrow> real) \<Rightarrow> grid_manager \<Rightarrow> grid_manager \<times> (nat \<Rightarrow> real) \<times> spawn list" where
  "spawnNewTiles rnd g =
     (let tps = (case tileTypes g of None \<Rightarrow> MATCHABLE_COLORS | Some l \<Rightarrow> l) in
      fold (\<lambda>x. fold (spawnAt tps x) [0..height g - 1]) [0..width g - 1] (g, rnd, []))"

text \<open>\<open>processGravity\<close> returns the grid, the random source left, \<open>movements\<close> and \<open>newTiles\<close>.\<close>

definition processGravity ::
  "(nat \<Rightarrow> real) \<Rightarrow> grid_manager
     \<Rightarrow> grid_manager \<times> (nat \<Rightarrow> real) \<times> movement list \<times> spawn list" where
  "processGravity rnd g =
     (let r1 = applyGravityFully g;
          movements = concat (snd r1);
          r2 = spawnNewTiles rnd (fst r1);
          newTiles = snd (snd r2)
      in if length newTiles > 0 then
           (let r3 = applyGravityFully (fst r2)
            in (fst r3, fst (snd r2), movements @ concat (snd r3), newTiles))
         else (fst r2, fst (snd r2), movements, newTiles))"

section \<open>GridManager.initialize\<close>

text \<open>
  The level configuration as \<open>initialize\<close> destructures it; a field that is \<open>undefined\<close>
  (\<open>None\<close>) takes the default of the destructuring pattern.
\<close>

record blocker =
  blockerType :: tile_type
  blockerX :: int
  blockerY :: int
  blockerIceLayer :: "int option"
  blockerLocked :: "bool option"

record level_config =
  levelBlockers :: "blocker list option"
  levelExitPosition :: "(int \<times> int) option"
  levelCharacterStart :: "(int \<times> int) option"
  levelTileTypes :: "tile_type list option"

text \<open>\<open>this.grid[y][x] = v\<close> where the row may not exist.\<close>

definition assignCell ::
  "int \<Rightarrow> int \<Rightarrow> tile \<Rightarrow> error + grid_manager \<Rightarrow> error + grid_manager" where
  "assignCell x y t r =
     (case r of
        Inl e \<Rightarrow> Inl e
      | Inr g \<Rightarrow> if 0 \<le> y \<and> y < height g then Inr (writeCell g x y (Some t)) else Inl TypeError)"

definition blockerTile :: "blocker \<Rightarrow> tile" where
  "blockerTile b =
     (let t0 = newTile (blockerType b) (blockerX b) (blockerY b);
          t1 = (case blockerIceLayer b of
                  None \<Rightarrow> t0
                | Some n \<Rightarrow> if n \<noteq> 0 then addIce n t0 else t0);
          t2 = (case blockerLocked b of
                  None \<Rightarrow> t1
                | Some l \<Rightarrow> if l then lock t1 else t1)
      in t2)"

text \<open>
  One cell of the final filling loop. The third component of the state is bookkeeping of
  the model only: the cells at which the exclusion left no colour, so that the tile was
  drawn from the whole palette ("If all types would cause a match, just pick any").
\<close>

definition fillCell ::
  "tile_type list \<Rightarrow> int \<Rightarrow> int \<Rightarrow> grid_manager \<times> (nat \<Rightarrow> real) \<times> (int \<times> int) list
     \<Rightarrow> grid_manager \<times> (nat \<Rightarrow> real) \<times> (int \<times> int) list" where
  "fillCell tps y x st =
     (case st of (g, rnd, fallbacks) \<Rightarrow>
        (case grid g y x of
           Some t \<Rightarrow> st
         | None \<Rightarrow>
             (writeCell g x y (Some (createNonMatchingTile g x y tps (rnd 0))),
              (\<lambda>n. rnd (Suc n)),
              (if length (availableTypes g x y tps) > 0 then fallbacks
               else fallbacks @ [(x, y)]))))"

definition initialize ::
  "grid_manager \<Rightarrow> level_config \<Rightarrow> (nat \<Rightarrow> real)
     \<Rightarrow> error + (grid_manager \<times> (nat \<Rightarrow> real) \<times> (int \<times> int) list)" where
  "initialize g0 cfg rnd =
     (let bs = (case levelBlockers cfg of None \<Rightarrow> [] | Some l \<Rightarrow> l);
          ep = (case levelExitPosition cfg of None \<Rightarrow> (width g0 div 2, 0) | Some p \<Rightarrow> p);
          cs = (case levelCharacterStart cfg of
                  None \<Rightarrow> (width g0 div 2, height g0 - 1) | Some p \<Rightarrow> p);
          tps = (case levelTileTypes cfg of None \<Rightarrow> MATCHABLE_COLORS | Some l \<Rightarrow> l);
          g1 = g0\<lparr>tileTypes := Some tps, exitPosition := ep, characterPosition := Some cs,
                  grid := (\<lambda>y x. None)\<rparr>;
          r2 = fold (\<lambda>b. assignCell (blockerX b) (blockerY b) (blockerTile b)) bs (Inr g1);
          r3 = assignCell (fst ep) (snd ep) (newTile EXIT (fst ep) (snd ep)) r2;
          r4 = assignCell (fst cs) (snd cs) (newTile EMPTY (fst cs) (snd cs)) r3
      in case r4 of
           Inl e \<Rightarrow> Inl e
         | Inr g4 \<Rightarrow>
             Inr (fold (\<lambda>y. fold (fillCell tps y) [0..width g4 - 1]) [0..height g4 - 1]
                       (g4, rnd, [])))"

section \<open>Character and CharacterController\<close>

record character =
  charX :: int
  charY :: int
  startX :: int
  startY :: int
  isMoving :: bool
  escaped :: bool

record character_controller =
  character :: "character option"
  exitY :: int

record step =
  stepFromY :: int
  stepToY :: int
  stepX :: int

definition newCharacter :: "int \<Rightarrow> int \<Rightarrow> character" where
  "newCharacter x y =
     \<lparr>charX = x, charY = y, startX = x, startY = y, isMoving = False, escaped = False\<rparr>"

text \<open>\<open>CharacterController.initialize\<close> on the grid manager and the controller.\<close>

definition initializeCharacter ::
  "grid_manager \<Rightarrow> int \<Rightarrow> int \<Rightarrow> int \<Rightarrow> grid_manager \<times> character_controller" where
  "initializeCharacter g x y ey =
     (updateCharacterPosition g x y x y, \<lparr>character = Some (newCharacter x y), exitY = ey\<rparr>)"

definition tryMoveUp ::
  "grid_manager \<times> character_controller
     \<Rightarrow> (grid_manager \<times> character_controller) \<times> step option" where
  "tryMoveUp s =
     (case s of (g, cc) \<Rightarrow>
        (case character cc of
           None \<Rightarrow> (s, None)
         | Some ch \<Rightarrow>
             if isMoving ch then (s, None)
             else
               (let x = charX ch; y = charY ch in
                if y \<le> 0 then (s, None)
                else
                  (let canMove = (case getTile g x (y - 1) of
                                    None \<Rightarrow> False
                                  | Some t \<Rightarrow> isEmpty t \<or> isExit t)
                   in if canMove then
                        ((updateCharacterPosition g x y x (y - 1),
                          cc\<lparr>character := Some (ch\<lparr>charX := x, charY := y - 1\<rparr>)\<rparr>),
                         Some \<lparr>stepFromY = y, stepToY = y - 1, stepX = x\<rparr>)
                      else (s, None)))))"

definition hasEscaped :: "character_controller \<Rightarrow> bool" where
  "hasEscaped cc = (case character cc of None \<Rightarrow> False | Some ch \<Rightarrow> charY ch \<le> exitY cc)"

definition characterRow :: "grid_manager \<times> character_controller \<Rightarrow> nat" where
  "characterRow s = (case character (snd s) of None \<Rightarrow> 0 | Some ch \<Rightarrow> nat (charY ch))"

lemma tryMoveUp_moves:
  "tryMoveUp s = (s', Some m) \<Longrightarrow> characterRow s' < characterRow s"
  by (cases s) (auto simp: tryMoveUp_def characterRow_def Let_def split: option.splits if_splits)

text \<open>The loop of \<open>moveToHighestEmpty\<close>, entered with the first \<open>tryMoveUp\<close>.\<close>

function moveLoop ::
  "grid_manager \<times> character_controller \<Rightarrow> step list
     \<Rightarrow> (grid_manager \<times> character_controller) \<times> step list" where
  "moveLoop s movements =
     (case tryMoveUp s of
        (s', None) \<Rightarrow> (s', movements)
      | (s', Some m) \<Rightarrow>
          if hasEscaped (snd s') then (s', movements @ [m])
          else moveLoop s' (movements @ [m]))"
  by pat_completeness auto
termination
  by (relation "measure (\<lambda>(s, ms). characterRow s)") (auto intro: tryMoveUp_moves[OF sym])

declare moveLoop.simps [simp del]

definition moveToHighestEmpty ::
  "grid_manager \<times> character_controller
     \<Rightarrow> (grid_manager \<times> character_controller) \<times> step list" where
  "moveToHighestEmpty s = moveLoop s []"

section \<open>LevelManager\<close>

text \<open>
  \<open>Game.init\<close> installs the callbacks \<open>onMovesChanged\<close>, \<open>onWin\<close> and \<open>onLose\<close>; the model
  records every call of one of them, in order, in \<open>callbackLog\<close>: \<open>MovesChanged remaining max\<close>,
  \<open>Win level movesUsed movesRemaining\<close> and \<open>Lose level\<close>.
\<close>

datatype event = MovesChanged int int | WinEvent int int int | LoseEvent int

record level_manager =
  currentLevelIndex :: int
  movesRemaining :: int
  maxMoves :: int
  gameState :: game_state
  callbackLog :: "event list"

definition triggerWin :: "level_manager \<Rightarrow> level_manager" where
  "triggerWin lm =
     lm\<lparr>gameState := WIN,
        callbackLog := callbackLog lm @
          [WinEvent (currentLevelIndex lm + 1) (maxMoves lm - movesRemaining lm)
                    (movesRemaining lm)]\<rparr>"

definition triggerLose :: "level_manager \<Rightarrow> level_manager" where
  "triggerLose lm =
     lm\<lparr>gameState := LOSE, callbackLog := callbackLog lm @ [LoseEvent (currentLevelIndex lm + 1)]\<rparr>"

text \<open>\<open>useMove\<close> returns the level manager and the boolean the method returns.\<close>

definition useMove :: "level_manager \<Rightarrow> level_manager \<times> bool" where
  "useMove lm =
     (if movesRemaining lm \<le> 0 then (lm, False)
      else
        (let lm1 = lm\<lparr>movesRemaining := movesRemaining lm - 1\<rparr>;
             lm2 = lm1\<lparr>callbackLog := callbackLog lm1 @
                                         [MovesChanged (movesRemaining lm1) (maxMoves lm1)]\<rparr>
         in if movesRemaining lm2 \<le> 0 \<and> gameState lm2 \<noteq> WIN then (triggerLose lm2, False)
            else (lm2, True)))"

definition isGameOver :: "level_manager \<Rightarrow> bool" where
  "isGameOver lm = (gameState lm = WIN \<or> gameState lm = LOSE)"

definition setState :: "game_state \<Rightarrow> level_manager \<Rightarrow> level_manager" where
  "setState st lm = lm\<lparr>gameState := st\<rparr>"

definition getMovesRemaining :: "level_manager \<Rightarrow> int" where
  "getMovesRemaining lm = movesRemaining lm"

section \<open>Game (main.js)\<close>

text \<open>
  The controller without its DOM handles. The waits on the animation manager only delay
  the continuation, and a swap that arrives during one returns at the \<open>isProcessing\<close>
  guard, so \<open>handleSwap\<close> runs as one step. \<open>randomSource\<close> holds the values of the coming
  calls of \<open>Math.random()\<close>.
\<close>

record game =
  gridManager :: grid_manager
  characterController :: character_controller
  levelManager :: level_manager
  isProcessing :: bool
  randomSource :: "nat \<Rightarrow> real"

text \<open>
  \<open>new Tile(special.color, x, y)\<close>, \<open>setSpecial\<close>, \<open>setTile\<close>; reading \<open>.x\<close> of a position
  that is \<open>undefined\<close> raises a TypeError.
\<close>

definition createSpecial :: "special \<Rightarrow> error + grid_manager \<Rightarrow> error + grid_manager" where
  "createSpecial sp r =
     (case r of
        Inl e \<Rightarrow> Inl e
      | Inr g \<Rightarrow>
          (case position sp of
             None \<Rightarrow> Inl TypeError
           | Some p \<Rightarrow>
               Inr (setTile g (fst p) (snd p)
                      (setSpecial (specialKind sp) (newTile (specialColor sp) (fst p) (snd p))))))"

text \<open>
  The part of one round of \<open>processCascades\<close> between the match scan and gravity: process
  the matches, empty the cleared positions, create the special tiles.
\<close>

definition clearMatches :: "grid_manager \<Rightarrow> tile_match list \<Rightarrow> error + grid_manager" where
  "clearMatches g matches =
     (let pm = processMatches g matches;
          g1 = fold (\<lambda>pos h. setEmpty h (fst pos) (snd pos)) (fst (snd pm)) (fst pm)
      in fold createSpecial (snd (snd pm)) (Inr g1))"

text \<open>
  \<open>processCascades\<close> loops while the scan finds matches, which a run of unlucky spawns can
  prolong without bound; the first argument bounds the number of rounds and \<open>OutOfFuel\<close>
  is the loop still running after that many.
\<close>

fun processCascades :: "nat \<Rightarrow> game \<Rightarrow> error + game" where
  "processCascades 0 s = Inl OutOfFuel"
| "processCascades (Suc n) s =
     (let s1 = s\<lparr>levelManager := setState MATCHING (levelManager s)\<rparr>;
          matches = findAllMatches (gridManager s1)
      in if length matches = 0 then Inr s1
         else
           (case clearMatches (gridManager s1) matches of
              Inl e \<Rightarrow> Inl e
            | Inr g2 \<Rightarrow>
                (let pg = processGravity (randomSource s1) g2
                 in processCascades n
                      (s1\<lparr>levelManager := setState FALLING (levelManager s1),
                          gridManager := fst pg, randomSource := fst (snd pg)\<rparr>))))"

definition moveCharacter :: "game \<Rightarrow> game" where
  "moveCharacter s =
     (let s1 = s\<lparr>levelManager := setState CHARACTER_MOVING (levelManager s)\<rparr>;
          r = moveToHighestEmpty (gridManager s1, characterController s1)
      in s1\<lparr>gridManager := fst (fst r), characterController := snd (fst r)\<rparr>)"

text \<open>The last two statements of \<open>handleSwap\<close>.\<close>

definition finishSwap :: "game \<Rightarrow> game" where
  "finishSwap s = s\<lparr>levelManager := setState IDLE (levelManager s), isProcessing := False\<rparr>"

definition handleSwap :: "nat \<Rightarrow> game \<Rightarrow> int \<Rightarrow> int \<Rightarrow> int \<Rightarrow> int \<Rightarrow> error + game" where
  "handleSwap fuel s x1 y1 x2 y2 =
     (if isProcessing s \<or> isGameOver (levelManager s) then Inr s
      else
        (let s1 = s\<lparr>isProcessing := True,
                    levelManager := setState SWAPPING (levelManager s)\<rparr>
         in case swap (gridManager s1) x1 y1 x2 y2 of
              Inl e \<Rightarrow> Inl e
            | Inr g1 \<Rightarrow>
                (let s2 = s1\<lparr>gridManager := g1\<rparr> in
                 if checkSwapForMatches g1 x1 y1 x2 y2 then
                   (let s3 = s2\<lparr>levelManager := fst (useMove (levelManager s2))\<rparr> in
                    case processCascades fuel s3 of
                      Inl e \<Rightarrow> Inl e
                    | Inr s4 \<Rightarrow>
                        (let s5 = moveCharacter s4;
                             s6 = (if hasEscaped (characterController s5)
                                   then s5\<lparr>levelManager := triggerWin (levelManager s5)\<rparr>
                                   else if getMovesRemaining (levelManager s5) \<le> 0
                                   then s5\<lparr>levelManager := triggerLose (levelManager s5)\<rparr>
                                   else s5)
                         in Inr (finishSwap s6)))
                 else
                   (case swap g1 x1 y1 x2 y2 of
                      Inl e \<Rightarrow> Inl e
                    | Inr g2 \<Rightarrow> Inr (finishSwap (s2\<lparr>gridManager := g2\<rparr>))))))"

section \<open>Boards for the examples\<close>

text \<open>
  \<open>boardOf\<close> makes a grid manager from the rows of a board, top row first, without a
  character; \<open>colours\<close> turns rows of tile types into rows of fresh tiles; \<open>typesOf\<close>
  reads the tile types of a grid back, row by row.
\<close>

definition boardOf :: "tile list list \<Rightarrow> grid_manager" where
  "boardOf rows =
     \<lparr>width = (case rows of [] \<Rightarrow> 0 | r # rs \<Rightarrow> int (length r)),
      height = int (length rows),
      grid = (\<lambda>y x. if 0 \<le> y \<and> y < int (length rows) \<and> 0 \<le> x \<and> x < int (length (rows ! nat y))
                     then Some ((rows ! nat y) ! nat x) else None),
      tileTypes = None, exitPosition = (0, 0), characterPosition = None\<rparr>"

definition colours :: "tile_type list list \<Rightarrow> tile list list" where
  "colours rows =
     map (\<lambda>(y, r). map (\<lambda>(x, c). newTile c (int x) (int y)) (enumerate 0 r)) (enumerate 0 rows)"

definition typesOf :: "grid_manager \<Rightarrow> tile_type option list list" where
  "typesOf g =
     map (\<lambda>y. map (\<lambda>x. map_option tileType (getTile g x y)) [0..width g - 1]) [0..height g - 1]"

definition lastMoveBoard :: grid_manager where
  "lastMoveBoard =
     (boardOf (colours
        [[RED, EXIT, GREEN],
         [BLUE, EMPTY, YELLOW],
         [RED, RED, BLUE],
         [GREEN, BLUE, RED],
         [YELLOW, GREEN, BLUE]]))
       \<lparr>tileTypes := Some [RED, BLUE, GREEN, YELLOW], exitPosition := (1, 0),
        characterPosition := Some (1, 1)\<rparr>"

definition lastMoveGame :: game where
  "lastMoveGame =
     \<lparr>gridManager = lastMoveBoard,
      characterController = \<lparr>character = Some (newCharacter 1 1), exitY = 0\<rparr>,
      levelManager = \<lparr>currentLevelIndex = 0, movesRemaining = 1, maxMoves = 1,
                      gameState = IDLE, callbackLog = []\<rparr>,
      isProcessing = False, randomSource = (\<lambda>n. 0)\<rparr>"

definition fourBoard :: grid_manager where
  "fourBoard = boardOf (colours [[RED, RED, RED, RED, BLUE]])"

definition fourMatch :: tile_match where
  "fourMatch = \<lparr>tiles = [(0, 0), (1, 0), (2, 0), (3, 0)], matchType = Horizontal,
                 matchLength = 4, color = RED\<rparr>"

definition icedBoard :: "int \<Rightarrow> grid_manager" where
  "icedBoard n = boardOf [[addIce n (newTile RED 0 0), newTile RED 1 0, newTile RED 2 0]]"

definition bombBoard :: grid_manager where
  "bombBoard = boardOf
     [[newTile BLUE 0 0, newTile GREEN 1 0, newTile YELLOW 2 0],
      [newTile GREEN 0 1, newTile YELLOW 1 1, newTile BLUE 2 1],
      [newTile RED 0 2, setSpecial BOMB (newTile RED 1 2), newTile RED 2 2]]"


definition stoneColumn :: grid_manager where
  "stoneColumn = boardOf (colours [[STONE], [RED], [BLUE], [EMPTY]])"


definition gravityBoard :: grid_manager where
  "gravityBoard =
     (boardOf (colours
        [[RED, EXIT, EMPTY],
         [STONE, EMPTY, GREEN],
         [EMPTY, EMPTY, BLUE]]))
       \<lparr>tileTypes := Some [RED, BLUE, GREEN, YELLOW], exitPosition := (1, 0),
        characterPosition := Some (1, 1)\<rparr>"

text \<open>
  \<open>emptyManager w h\<close> is the grid manager that the constructor leaves, given its rows.
\<close>

definition emptyManager :: "int \<Rightarrow> int \<Rightarrow> grid_manager" where
  "emptyManager w h =
     \<lparr>width = w, height = h, grid = (\<lambda>y x. None), tileTypes = None, exitPosition = (0, 0),
      characterPosition = None\<rparr>"

definition smallLevel :: level_config where
  "smallLevel =
     \<lparr>levelBlockers = Some [\<lparr>blockerType = STONE, blockerX = 0, blockerY = 1,
                             blockerIceLayer = None, blockerLocked = None\<rparr>],
      levelExitPosition = Some (1, 0), levelCharacterStart = Some (1, 2),
      levelTileTypes = Some [RED, BLUE, GREEN]\<rparr>"

text \<open>
  Two levels for grid initialization: one whose palette names red twice, one with three
  red blockers in row 1.
\<close>

definition repeatedLevel :: level_config where
  "repeatedLevel =
     \<lparr>levelBlockers = None, levelExitPosition = Some (1, 0), levelCharacterStart = Some (1, 2),
      levelTileTypes = Some [RED, RED, BLUE]\<rparr>"

definition redBlockerLevel :: level_config where
  "redBlockerLevel =
     \<lparr>levelBlockers = Some (map (\<lambda>x. \<lparr>blockerType = RED, blockerX = x, blockerY = 1,
                                      blockerIceLayer = None, blockerLocked = None\<rparr>) [0, 1, 2]),
      levelExitPosition = Some (1, 0), levelCharacterStart = Some (1, 2),
      levelTileTypes = Some [RED, BLUE, GREEN]\<rparr>"

section \<open>Loops as folds: invariants\<close>

lemma fold_upto_inv:
  assumes "P i s" and "\<And>k t. i \<le> k \<Longrightarrow> k \<le> j \<Longrightarrow> P k t \<Longrightarrow> P (k + 1) (f k t)" and "i \<le> j + 1"
  shows "P (j + 1) (fold f [i..j] s)"
proof -
  have "\<And>j. i \<le> j + 1 \<Longrightarrow> nat (j + 1 - i) = n \<Longrightarrow> (\<And>k t. i \<le> k \<Longrightarrow> k \<le> j \<Longrightarrow> P k t \<Longrightarrow> P (k + 1) (f k t)) \<Longrightarrow> P (j + 1) (fold f [i..j] s)" for n
  proof (induction n)
    case 0
    then have "j + 1 = i" by simp
    then show ?case using assms(1) by simp
  next
    case (Suc n)
    then have le: "i \<le> j" by simp
    have "P (j - 1 + 1) (fold f [i..j - 1] s)"
      using Suc.prems le by (intro Suc.IH) auto
    then have "P j (fold f [i..j - 1] s)" by simp
    then have "P (j + 1) (f j (fold f [i..j - 1] s))" using Suc.prems(3) le by simp
    then show ?case using le by (simp add: upto_rec2)
  qed
  then show ?thesis using assms by blast
qed

lemma fold_list_inv:
  assumes "P s" and "\<And>x t. x \<in> set xs \<Longrightarrow> P t \<Longrightarrow> P (f x t)"
  shows "P (fold f xs s)"
  using assms by (induction xs arbitrary: s) auto

text \<open>
  What a record of the scan is: \<open>hRun g m\<close> says that \<open>m\<close> lists, left to right, the cells
  of \<open>matchLength m \<ge> 3\<close> consecutive columns of one row, each holding a matchable tile of
  the colour \<open>color m\<close>; \<open>vRun\<close> is the same down a column.
\<close>

definition hRun :: "grid_manager \<Rightarrow> tile_match \<Rightarrow> bool" where
  "hRun g m = (\<exists>s y. tiles m = map (\<lambda>i. (i, y)) [s..s + matchLength m - 1] \<and>
       matchType m = Horizontal \<and> matchLength m \<ge> 3 \<and>
       (\<forall>i. s \<le> i \<and> i < s + matchLength m \<longrightarrow> matchableType g i y = Some (color m)))"

definition vRun :: "grid_manager \<Rightarrow> tile_match \<Rightarrow> bool" where
  "vRun g m = (\<exists>s x. tiles m = map (\<lambda>j. (x, j)) [s..s + matchLength m - 1] \<and>
       matchType m = Vertical \<and> matchLength m \<ge> 3 \<and>
       (\<forall>j. s \<le> j \<and> j < s + matchLength m \<longrightarrow> matchableType g x j = Some (color m)))"

definition hScanInv :: "grid_manager \<Rightarrow> int \<Rightarrow> (tile_match \<Rightarrow> bool) \<Rightarrow> int \<Rightarrow> int \<times> tile_type option \<times> tile_match list \<Rightarrow> bool" where
  "hScanInv g y P x st = (case st of (ms, ct, out) \<Rightarrow>
      (\<forall>m \<in> set out. P m) \<and>
      (case ct of None \<Rightarrow> True
       | Some c \<Rightarrow> ms < x \<and> (\<forall>i. ms \<le> i \<and> i < x \<longrightarrow> matchableType g i y = Some c)))"

definition vScanInv :: "grid_manager \<Rightarrow> int \<Rightarrow> (tile_match \<Rightarrow> bool) \<Rightarrow> int \<Rightarrow> int \<times> tile_type option \<times> tile_match list \<Rightarrow> bool" where
  "vScanInv g x P y st = (case st of (ms, ct, out) \<Rightarrow>
      (\<forall>m \<in> set out. P m) \<and>
      (case ct of None \<Rightarrow> True
       | Some c \<Rightarrow> ms < y \<and> (\<forall>j. ms \<le> j \<and> j < y \<longrightarrow> matchableType g x j = Some c)))"

lemma hScanStep_inv:
  assumes "hScanInv g y P k st" and "\<And>m. hRun g m \<Longrightarrow> P m"
  shows "hScanInv g y P (k + 1) (hScanStep g y k st)"
proof -
  obtain ms ct out where st: "st = (ms, ct, out)" by (cases st) auto
  show ?thesis
  proof (cases "matchableType g k y = ct \<and> ct \<noteq> None")
    case True
    then obtain c where c: "ct = Some c" by auto
    have "\<And>i. ms \<le> i \<Longrightarrow> i < k + 1 \<Longrightarrow> matchableType g i y = Some c"
    proof -
      fix i assume "ms \<le> i" "i < k + 1"
      then consider "i < k" | "i = k" by linarith
      then show "matchableType g i y = Some c"
        using assms(1) True c st \<open>ms \<le> i\<close> by cases (auto simp: hScanInv_def)
    qed
    then show ?thesis using assms(1) True c st
      by (auto simp: hScanInv_def hScanStep_def)
  next
    case False
    have new: "P \<lparr>tiles = map (\<lambda>mx. (mx, y)) [ms..k - 1],
                 matchType = Horizontal, matchLength = k - ms, color = c\<rparr>"
      if "ct = Some c" "k - ms \<ge> MIN_MATCH" for c
    proof (rule assms(2))
      show "hRun g \<lparr>tiles = map (\<lambda>mx. (mx, y)) [ms..k - 1],
                 matchType = Horizontal, matchLength = k - ms, color = c\<rparr>"
        unfolding hRun_def
        apply (rule exI[of _ ms])
        apply (rule exI[of _ y])
        using that assms(1) st by (auto simp: hScanInv_def MIN_MATCH_def)
    qed
    show ?thesis using assms(1) False st new
      by (auto simp: hScanInv_def hScanStep_def Let_def split: option.splits)
  qed
qed

lemma vScanStep_inv:
  assumes "vScanInv g x P k st" and "\<And>m. vRun g m \<Longrightarrow> P m"
  shows "vScanInv g x P (k + 1) (vScanStep g x k st)"
proof -
  obtain ms ct out where st: "st = (ms, ct, out)" by (cases st) auto
  show ?thesis
  proof (cases "matchableType g x k = ct \<and> ct \<noteq> None")
    case True
    then obtain c where c: "ct = Some c" by auto
    have "\<And>j. ms \<le> j \<Longrightarrow> j < k + 1 \<Longrightarrow> matchableType g x j = Some c"
    proof -
      fix j assume "ms \<le> j" "j < k + 1"
      then consider "j < k" | "j = k" by linarith
      then show "matchableType g x j = Some c"
        using assms(1) True c st \<open>ms \<le> j\<close> by cases (auto simp: vScanInv_def)
    qed
    then show ?thesis using assms(1) True c st
      by (auto simp: vScanInv_def vScanStep_def)
  next
    case False
    have new: "P \<lparr>tiles = map (\<lambda>my. (x, my)) [ms..k - 1],
                 matchType = Vertical, matchLength = k - ms, color = c\<rparr>"
      if "ct = Some c" "k - ms \<ge> MIN_MATCH" for c
    proof (rule assms(2))
      show "vRun g \<lparr>tiles = map (\<lambda>my. (x, my)) [ms..k - 1],
                 matchType = Vertical, matchLength = k - ms, color = c\<rparr>"
        unfolding vRun_def
        apply (rule exI[of _ ms])
        apply (rule exI[of _ x])
        using that assms(1) st by (auto simp: vScanInv_def MIN_MATCH_def)
    qed
    show ?thesis using assms(1) False st new
      by (auto simp: vScanInv_def vScanStep_def Let_def split: option.splits)
  qed
qed

lemma hScanRow_sound:
  assumes "\<forall>m \<in> set ms. P m" and "\<And>m. hRun g m \<Longrightarrow> P m"
  shows "\<forall>m \<in> set (hScanRow g y ms). P m"
proof (cases "0 \<le> width g + 1")
  case True
  have "hScanInv g y P (width g + 1) (fold (hScanStep g y) [0..width g] (0, None, ms))"
  proof (rule fold_upto_inv[where P = "hScanInv g y P"])
    show "hScanInv g y P 0 (0, None, ms)" using assms(1) by (simp add: hScanInv_def)
    show "0 \<le> width g + 1" by (rule True)
  qed (rule hScanStep_inv, assumption, rule assms(2))
  then show ?thesis
    by (auto simp: hScanInv_def hScanRow_def split: prod.splits)
next
  case False
  then show ?thesis using assms(1) by (simp add: hScanRow_def)
qed

lemma vScanColumn_sound:
  assumes "\<forall>m \<in> set ms. P m" and "\<And>m. vRun g m \<Longrightarrow> P m"
  shows "\<forall>m \<in> set (vScanColumn g x ms). P m"
proof (cases "0 \<le> height g + 1")
  case True
  have "vScanInv g x P (height g + 1) (fold (vScanStep g x) [0..height g] (0, None, ms))"
  proof (rule fold_upto_inv[where P = "vScanInv g x P"])
    show "vScanInv g x P 0 (0, None, ms)" using assms(1) by (simp add: vScanInv_def)
    show "0 \<le> height g + 1" by (rule True)
  qed (rule vScanStep_inv, assumption, rule assms(2))
  then show ?thesis
    by (auto simp: vScanInv_def vScanColumn_def split: prod.splits)
next
  case False
  then show ?thesis using assms(1) by (simp add: vScanColumn_def)
qed

lemma findAllMatches_sound:
  assumes "\<And>m. hRun g m \<Longrightarrow> P m" and "\<And>m. vRun g m \<Longrightarrow> P m"
  shows "\<forall>m \<in> set (findAllMatches g). P m"
proof -
  have h: "\<forall>m \<in> set (fold (hScanRow g) [0..height g - 1] []). P m"
    by (rule fold_list_inv[where P = "\<lambda>ms. \<forall>m \<in> set ms. P m"])
       (simp, rule hScanRow_sound, assumption, rule assms(1))
  show ?thesis unfolding findAllMatches_def
    by (rule fold_list_inv[where P = "\<lambda>ms. \<forall>m \<in> set ms. P m"])
       (rule h, rule vScanColumn_sound, assumption, rule assms(2))
qed


section \<open>Matches found by the scan\<close>

lemma matchableType_Some:
  "matchableType g x y = Some c \<Longrightarrow>
     \<exists>u. getTile g x y = Some u \<and> isMatchable u \<and> \<not> isLocked u \<and> tileType u = c"
  by (auto simp: matchableType_def isMatchable_def split: option.splits if_splits)

lemma hRun_cells:
  assumes "hRun g m" "p \<in> set (tiles m)"
  shows "\<exists>u. getTile g (fst p) (snd p) = Some u \<and> isMatchable u \<and> \<not> isLocked u \<and> tileType u = color m"
proof -
  from assms(1) obtain s y where
    t: "tiles m = map (\<lambda>i. (i, y)) [s..s + matchLength m - 1]" and
    a: "\<forall>i. s \<le> i \<and> i < s + matchLength m \<longrightarrow> matchableType g i y = Some (color m)"
    unfolding hRun_def by blast
  from assms(2) t obtain i where "p = (i, y)" "s \<le> i" "i < s + matchLength m" by auto
  then show ?thesis using a matchableType_Some[of g i y "color m"] by auto
qed

lemma vRun_cells:
  assumes "vRun g m" "p \<in> set (tiles m)"
  shows "\<exists>u. getTile g (fst p) (snd p) = Some u \<and> isMatchable u \<and> \<not> isLocked u \<and> tileType u = color m"
proof -
  from assms(1) obtain s x where
    t: "tiles m = map (\<lambda>j. (x, j)) [s..s + matchLength m - 1]" and
    a: "\<forall>j. s \<le> j \<and> j < s + matchLength m \<longrightarrow> matchableType g x j = Some (color m)"
    unfolding vRun_def by blast
  from assms(2) t obtain j where "p = (x, j)" "s \<le> j" "j < s + matchLength m" by auto
  then show ?thesis using a matchableType_Some[of g x j "color m"] by auto
qed

lemma findAllMatches_cells:
  "\<forall>m \<in> set (findAllMatches g). \<forall>p \<in> set (tiles m).
     \<exists>u. getTile g (fst p) (snd p) = Some u \<and> isMatchable u \<and> \<not> isLocked u \<and> tileType u = color m"
  by (rule findAllMatches_sound) (auto dest: hRun_cells vRun_cells)


definition specialSpec :: "tile_match \<Rightarrow> bool" where
  "specialSpec m =
     (matchLength m \<ge> 3 \<and> int (length (tiles m)) = matchLength m \<and>
      (\<exists>s c. tiles m = (if matchType m = Horizontal then map (\<lambda>i. (i, c)) [s..s + matchLength m - 1]
                         else map (\<lambda>j. (c, j)) [s..s + matchLength m - 1]) \<and>
         getSpecialTileForMatch m =
           (if matchLength m \<ge> 5 then
              Some \<lparr>specialKind = BOMB,
                    position = Some (if matchType m = Horizontal then (s + matchLength m div 2, c)
                                     else (c, s + matchLength m div 2)),
                    specialColor = color m\<rparr>
            else if matchLength m = 4 then
              Some \<lparr>specialKind = (if matchType m = Horizontal then LINE_V else LINE_H),
                    position = Some (if matchType m = Horizontal then (s + 2, c) else (c, s + 2)),
                    specialColor = color m\<rparr>
            else None)))"

lemma hRun_specialSpec:
  assumes "hRun g m"
  shows "specialSpec m"
proof -
  from assms obtain s y where
    t: "tiles m = map (\<lambda>i. (i, y)) [s..s + matchLength m - 1]" and
    h: "matchType m = Horizontal" and l: "matchLength m \<ge> 3"
    unfolding hRun_def by blast
  have len: "length (tiles m) = nat (matchLength m)" using t l by simp
  have mid: "tiles m ! (nat (matchLength m) div 2) = (s + matchLength m div 2, y)"
  proof -
    have k: "nat (matchLength m) div 2 < length [s..s + matchLength m - 1]"
      using l by simp
    have "s + int (nat (matchLength m) div 2) \<le> s + matchLength m - 1" using l by linarith
    then have "[s..s + matchLength m - 1] ! (nat (matchLength m) div 2) = s + int (nat (matchLength m) div 2)"
      by (rule nth_upto)
    moreover have "int (nat (matchLength m) div 2) = matchLength m div 2" using l by (simp add: zdiv_int)
    ultimately show ?thesis using t k by simp
  qed
  have idx: "nat (matchLength m) div 2 < nat (matchLength m)" using l by linarith
  have sp: "getSpecialTileForMatch m =
           (if matchLength m \<ge> 5 then
              Some \<lparr>specialKind = BOMB, position = Some (s + matchLength m div 2, y), specialColor = color m\<rparr>
            else if matchLength m = 4 then
              Some \<lparr>specialKind = LINE_V, position = Some (s + 2, y), specialColor = color m\<rparr>
            else None)"
    using l h len mid idx
    by (auto simp: getSpecialTileForMatch_def BOMB_COUNT_def LINE_CLEAR_COUNT_def tileAtIndex_def Let_def)
  show ?thesis unfolding specialSpec_def
    apply (intro conjI)
      apply (rule l)
     apply (simp add: len l)
    using l apply simp
    apply (rule exI[of _ s])
    apply (rule exI[of _ y])
    using t h sp by simp
qed


lemma vRun_specialSpec:
  assumes "vRun g m"
  shows "specialSpec m"
proof -
  from assms obtain s x where
    t: "tiles m = map (\<lambda>j. (x, j)) [s..s + matchLength m - 1]" and
    h: "matchType m = Vertical" and l: "matchLength m \<ge> 3"
    unfolding vRun_def by blast
  have len: "length (tiles m) = nat (matchLength m)" using t l by simp
  have mid: "tiles m ! (nat (matchLength m) div 2) = (x, s + matchLength m div 2)"
  proof -
    have k: "nat (matchLength m) div 2 < length [s..s + matchLength m - 1]"
      using l by simp
    have "s + int (nat (matchLength m) div 2) \<le> s + matchLength m - 1" using l by linarith
    then have "[s..s + matchLength m - 1] ! (nat (matchLength m) div 2) = s + int (nat (matchLength m) div 2)"
      by (rule nth_upto)
    moreover have "int (nat (matchLength m) div 2) = matchLength m div 2" using l by (simp add: zdiv_int)
    ultimately show ?thesis using t k by simp
  qed
  have idx: "nat (matchLength m) div 2 < nat (matchLength m)" using l by linarith
  have sp: "getSpecialTileForMatch m =
           (if matchLength m \<ge> 5 then
              Some \<lparr>specialKind = BOMB, position = Some (x, s + matchLength m div 2), specialColor = color m\<rparr>
            else if matchLength m = 4 then
              Some \<lparr>specialKind = LINE_H, position = Some (x, s + 2), specialColor = color m\<rparr>
            else None)"
    using l h len mid idx
    by (auto simp: getSpecialTileForMatch_def BOMB_COUNT_def LINE_CLEAR_COUNT_def tileAtIndex_def Let_def)
  show ?thesis unfolding specialSpec_def
    apply (intro conjI)
      apply (rule l)
     apply (simp add: len l)
    using l apply simp
    apply (rule exI[of _ s])
    apply (rule exI[of _ x])
    using t h sp by simp
qed

lemma findAllMatches_specialSpec: "\<forall>m \<in> set (findAllMatches g). specialSpec m"
  by (rule findAllMatches_sound) (auto dest: hRun_specialSpec vRun_specialSpec)

lemma fold_processMatch_specials:
  "snd (snd (snd (fold processMatch ms st))) =
     snd (snd (snd st)) @ List.map_filter getSpecialTileForMatch ms"
proof (induction ms arbitrary: st)
  case Nil
  show ?case by (simp add: List.map_filter_simps)
next
  case (Cons m ms)
  obtain g pr cl sp where st: "st = (g, pr, cl, sp)" by (cases st) auto
  show ?case unfolding fold_simps Cons.IH
    by (simp add: st processMatch_def Let_def List.map_filter_simps split: option.splits)
qed

lemma processMatches_specials:
  "snd (snd (processMatches g ms)) = List.map_filter getSpecialTileForMatch ms"
  by (simp add: processMatches_def Let_def fold_processMatch_specials)


section \<open>Ice layers in processMatches\<close>

definition iceAt :: "grid_manager \<Rightarrow> int \<times> int \<Rightarrow> int option" where
  "iceAt g p = map_option iceLayer (getTile g (fst p) (snd p))"

lemma getTile_updateTileAt:
  "getTile (updateTileAt g x y f) x' y' =
     (if x' = x \<and> y' = y then map_option f (getTile g x y) else getTile g x' y')"
  by (auto simp: getTile_def updateTileAt_def writeCell_def isValidPosition_def)

lemma updateTileAt_dims [simp]:
  "width (updateTileAt g x y f) = width g" "height (updateTileAt g x y f) = height g"
  "characterPosition (updateTileAt g x y f) = characterPosition g"
  "exitPosition (updateTileAt g x y f) = exitPosition g"
  "tileTypes (updateTileAt g x y f) = tileTypes g"
  by (auto simp: updateTileAt_def writeCell_def)

lemma iceAt_unlock_step:
  "iceAt (case getTile g x y of None \<Rightarrow> g
          | Some t \<Rightarrow> if isLocked t then updateTileAt g x y unlock else g) p = iceAt g p"
  by (cases p) (auto simp: iceAt_def getTile_updateTileAt unlock_def split: option.splits)

lemma unlockAdjacentTiles_ice: "iceAt (unlockAdjacentTiles g x y) p = iceAt g p"
  unfolding unlockAdjacentTiles_def
  by (rule fold_list_inv[where P = "\<lambda>h. iceAt h p = iceAt g p"]) (simp_all add: iceAt_unlock_step)

definition iceInv ::
  "grid_manager \<Rightarrow> grid_manager \<times> (int \<times> int) set \<times> (int \<times> int) list \<Rightarrow> bool" where
  "iceInv g0 st = (case st of (g, pr, cl) \<Rightarrow>
     set cl \<subseteq> pr \<and>
     (\<forall>p. p \<notin> pr \<longrightarrow> iceAt g p = iceAt g0 p) \<and>
     (\<forall>p \<in> pr. \<forall>n. iceAt g0 p = Some n \<and> n > 0 \<longrightarrow>
         iceAt g p = Some (n - 1) \<and> (p \<in> set cl \<longleftrightarrow> n = 1)))"

lemma iceAt_update_ice:
  "iceAt (updateTileAt g (fst q) (snd q) (\<lambda>u. fst (removeIceLayer u))) p =
     (if p = q then map_option (\<lambda>n. if n > 0 then n - 1 else n) (iceAt g q) else iceAt g p)"
  by (cases p; cases q; cases "getTile g (fst q) (snd q)")
     (auto simp: iceAt_def getTile_updateTileAt removeIceLayer_def)

lemma iceInv_step:
  assumes inv: "iceInv g0 (g, pr, cl)" and npr: "pos \<notin> pr"
    and oth: "\<And>p. p \<noteq> pos \<Longrightarrow> iceAt g' p = iceAt g p"
    and cl': "set cl' = set cl \<union> (if b then {pos} else {})"
    and here: "\<And>n. iceAt g0 pos = Some n \<Longrightarrow> n > 0 \<Longrightarrow> iceAt g' pos = Some (n - 1) \<and> (b \<longleftrightarrow> n = 1)"
  shows "iceInv g0 (g', insert pos pr, cl')"
proof -
  have i1: "set cl \<subseteq> pr" and i2: "\<And>p. p \<notin> pr \<Longrightarrow> iceAt g p = iceAt g0 p"
    and i3: "\<And>p n. p \<in> pr \<Longrightarrow> iceAt g0 p = Some n \<Longrightarrow> n > 0 \<Longrightarrow>
               iceAt g p = Some (n - 1) \<and> (p \<in> set cl \<longleftrightarrow> n = 1)"
    using inv by (auto simp: iceInv_def)
  have pcl: "pos \<notin> set cl" using i1 npr by auto
  have a: "set cl' \<subseteq> insert pos pr" using cl' i1 by (auto split: if_splits)
  have b: "\<forall>p. p \<notin> insert pos pr \<longrightarrow> iceAt g' p = iceAt g0 p"
  proof (intro allI impI)
    fix p assume "p \<notin> insert pos pr"
    then have "p \<noteq> pos" "p \<notin> pr" by auto
    then show "iceAt g' p = iceAt g0 p" using oth i2 by simp
  qed
  have c: "\<forall>p \<in> insert pos pr. \<forall>n. iceAt g0 p = Some n \<and> n > 0 \<longrightarrow>
         iceAt g' p = Some (n - 1) \<and> (p \<in> set cl' \<longleftrightarrow> n = 1)"
  proof (intro ballI allI impI)
    fix p n assume p: "p \<in> insert pos pr" and n: "iceAt g0 p = Some n \<and> n > 0"
    show "iceAt g' p = Some (n - 1) \<and> (p \<in> set cl' \<longleftrightarrow> n = 1)"
    proof (cases "p = pos")
      case True
      have "iceAt g' pos = Some (n - 1) \<and> (b \<longleftrightarrow> n = 1)" using here n True by simp
      moreover have "pos \<in> set cl' \<longleftrightarrow> b" using cl' pcl by (auto split: if_splits)
      ultimately show ?thesis using True by simp
    next
      case False
      then have ppr: "p \<in> pr" using p by simp
      have "iceAt g p = Some (n - 1) \<and> (p \<in> set cl \<longleftrightarrow> n = 1)" using i3[OF ppr] n by simp
      moreover have "iceAt g' p = iceAt g p" using oth False by simp
      moreover have "p \<in> set cl' \<longleftrightarrow> p \<in> set cl" using cl' False by (auto split: if_splits)
      ultimately show ?thesis by simp
    qed
  qed
  show ?thesis unfolding iceInv_def using a b c by simp
qed

lemma processTile_iceInv:
  assumes "iceInv g0 st"
  shows "iceInv g0 (processTile pos st)"
proof -
  obtain g pr cl where st: "st = (g, pr, cl)" by (cases st) auto
  have inv: "iceInv g0 (g, pr, cl)" using assms st by simp
  show ?thesis
  proof (cases "pos \<in> pr")
    case True
    then show ?thesis using assms st by (simp add: processTile_def)
  next
    case False
    note npr = False
    have i0: "iceAt g pos = iceAt g0 pos" using inv npr unfolding iceInv_def by blast
    show ?thesis
    proof (cases "getTile g (fst pos) (snd pos)")
      case None
      then have z: "iceAt g0 pos = None" using i0 by (simp add: iceAt_def)
      have r: "processTile pos st = (g, insert pos pr, cl)"
        using st npr None by (simp add: processTile_def Let_def)
      show ?thesis unfolding r
        by (rule iceInv_step[OF inv npr, where b = False]) (simp_all add: z)
    next
      case (Some t)
      then have it: "iceAt g0 pos = Some (iceLayer t)" using i0 by (simp add: iceAt_def)
      let ?g1 = "updateTileAt g (fst pos) (snd pos) (\<lambda>u. fst (removeIceLayer u))"
      show ?thesis
      proof (cases "iceLayer t > 0")
        case ice: True
        have g1pos: "iceAt ?g1 pos = Some (iceLayer t - 1)"
          using ice it i0 by (simp add: iceAt_update_ice)
        have g1oth: "\<And>p. p \<noteq> pos \<Longrightarrow> iceAt ?g1 p = iceAt g p"
          by (simp add: iceAt_update_ice)
        have rl: "iceLayer (fst (removeIceLayer t)) = iceLayer t - 1"
          using ice by (simp add: removeIceLayer_def)
        show ?thesis
        proof (cases "iceLayer t - 1 > 0")
          case True
          then have r: "processTile pos st = (?g1, insert pos pr, cl)"
            using st npr Some ice rl by (simp add: processTile_def Let_def)
          show ?thesis unfolding r
          proof (rule iceInv_step[OF inv npr, where b = False])
            show "\<And>n. iceAt g0 pos = Some n \<Longrightarrow> 0 < n \<Longrightarrow>
                   iceAt ?g1 pos = Some (n - 1) \<and> (False \<longleftrightarrow> n = 1)"
              using it g1pos True by auto
          qed (simp_all add: g1oth)
        next
          case False
          then have one: "iceLayer t = 1" using ice by simp
          have r: "processTile pos st =
                (unlockAdjacentTiles ?g1 (fst pos) (snd pos), insert pos pr, cl @ [pos])"
            using st npr Some ice rl False by (simp add: processTile_def Let_def)
          show ?thesis unfolding r
          proof (rule iceInv_step[OF inv npr, where b = True])
            show "\<And>n. iceAt g0 pos = Some n \<Longrightarrow> 0 < n \<Longrightarrow>
                   iceAt (unlockAdjacentTiles ?g1 (fst pos) (snd pos)) pos = Some (n - 1) \<and>
                   (True \<longleftrightarrow> n = 1)"
              using it g1pos one by (auto simp: unlockAdjacentTiles_ice)
          qed (simp_all add: g1oth unlockAdjacentTiles_ice)
        qed
      next
        case False
        have r: "processTile pos st =
                (unlockAdjacentTiles g (fst pos) (snd pos), insert pos pr, cl @ [pos])"
          using st npr Some False by (simp add: processTile_def Let_def)
        show ?thesis unfolding r
        proof (rule iceInv_step[OF inv npr, where b = True])
          show "\<And>n. iceAt g0 pos = Some n \<Longrightarrow> 0 < n \<Longrightarrow>
                 iceAt (unlockAdjacentTiles g (fst pos) (snd pos)) pos = Some (n - 1) \<and>
                 (True \<longleftrightarrow> n = 1)"
            using it False by auto
        qed (simp_all add: unlockAdjacentTiles_ice)
      qed
    qed
  qed
qed

lemma processTile_processed:
  "fst (snd st) \<union> {pos} \<subseteq> fst (snd (processTile pos st))"
  by (cases st) (auto simp: processTile_def Let_def split: option.splits)

lemma fold_processTile_processed:
  "fst (snd st) \<union> set ps \<subseteq> fst (snd (fold processTile ps st))"
proof (induction ps arbitrary: st)
  case Nil
  show ?case by simp
next
  case (Cons p ps)
  show ?case using Cons.IH[of "processTile p st"] processTile_processed[of st p] by auto
qed

definition iceInv4 ::
  "grid_manager \<Rightarrow> grid_manager \<times> (int \<times> int) set \<times> (int \<times> int) list \<times> special list \<Rightarrow> bool" where
  "iceInv4 g0 st = iceInv g0 (fst st, fst (snd st), fst (snd (snd st)))"

lemma processMatch_iceInv4:
  assumes "iceInv4 g0 st"
  shows "iceInv4 g0 (processMatch m st)"
proof -
  obtain g pr cl sp where st: "st = (g, pr, cl, sp)" by (cases st) auto
  have "iceInv g0 (fold processTile (tiles m) (g, pr, cl))"
    by (rule fold_list_inv[where P = "iceInv g0"])
       (use assms st in \<open>simp add: iceInv4_def\<close>, rule processTile_iceInv)
  then show ?thesis by (simp add: iceInv4_def processMatch_def st Let_def)
qed

lemma processMatch_processed:
  "fst (snd st) \<union> set (tiles m) \<subseteq> fst (snd (processMatch m st))"
proof -
  obtain g pr cl sp where st: "st = (g, pr, cl, sp)" by (cases st) auto
  show ?thesis using fold_processTile_processed[of "(g, pr, cl)" "tiles m"]
    by (simp add: processMatch_def st Let_def)
qed

lemma fold_processMatch_processed:
  "fst (snd st) \<union> (\<Union>m \<in> set ms. set (tiles m)) \<subseteq> fst (snd (fold processMatch ms st))"
proof (induction ms arbitrary: st)
  case Nil
  show ?case by simp
next
  case (Cons m ms)
  show ?case using Cons.IH[of "processMatch m st"] processMatch_processed[of st m] by auto
qed


section \<open>Gravity: the fixed point\<close>

text \<open>
  \<open>emptyCell\<close> is the test that puts a row into \<open>emptyPositions\<close> and makes a cell a
  target of \<open>spawnNewTiles\<close>; \<open>canFall\<close> is the test of the search loop for a tile that
  can fall.
\<close>

definition emptyCell :: "grid_manager \<Rightarrow> int \<Rightarrow> int \<Rightarrow> bool" where
  "emptyCell g x y =
     (\<not> isPositionFixed g x y \<and> (case getTile g x y of None \<Rightarrow> False | Some t \<Rightarrow> isEmpty t))"

definition canFall :: "grid_manager \<Rightarrow> int \<Rightarrow> int \<Rightarrow> bool" where
  "canFall g x y =
     (\<not> isPositionFixed g x y \<and>
      (case getTile g x y of
         None \<Rightarrow> False
       | Some t \<Rightarrow> \<not> isEmpty t \<and> \<not> isBlocker t \<and> isMatchable t))"

lemma emptyPositions_set: "set (emptyPositions g x) = {y. 0 \<le> y \<and> y < height g \<and> emptyCell g x y}"
  by (auto simp: emptyPositions_def emptyCell_def)

lemma findFalling_None:
  "findFalling g x ys = None \<Longrightarrow> \<forall>s \<in> set ys. \<not> canFall g x s"
  by (induction ys) (auto simp: canFall_def split: if_splits option.splits)

lemma fold_progress_stuck:
  assumes "\<And>x st. gravityProgress st (f x st)"
    and "length (snd (fold f xs st)) \<le> length (snd st)"
  shows "\<forall>x \<in> set xs. f x st = st"
  using assms(2)
proof (induction xs arbitrary: st)
  case Nil
  show ?case by simp
next
  case (Cons x xs)
  have p1: "gravityProgress st (f x st)" by (rule assms(1))
  have p2: "gravityProgress (f x st) (fold f xs (f x st))"
    by (rule fold_gravityProgress) (rule assms(1))
  have l1: "length (snd st) \<le> length (snd (f x st))" using p1 by (auto simp: gravityProgress_def)
  have l2: "length (snd (f x st)) \<le> length (snd (fold f xs (f x st)))"
    using p2 by (auto simp: gravityProgress_def)
  have eq: "f x st = st" using p1 l1 l2 Cons.prems by (auto simp: gravityProgress_def)
  then show ?case using Cons.IH[of st] Cons.prems by simp
qed

lemma fillEmpty_stuck:
  assumes "fillEmpty x e (g, ms) = (g, ms)"
  shows "findFalling g x (rev [0..e - 1]) = None"
proof (cases "findFalling g x (rev [0..e - 1])")
  case None
  then show ?thesis .
next
  case (Some a)
  then have "length (snd (fillEmpty x e (g, ms))) = Suc (length ms)"
    by (cases a) (simp add: fillEmpty_def)
  then show ?thesis using assms by simp
qed

lemma applyGravity_fixed_point:
  assumes "snd (applyGravity g) = []"
  shows "\<forall>x e s. emptyCell g x e \<and> 0 \<le> s \<and> s < e \<longrightarrow> \<not> canFall g x s"
proof (intro allI impI)
  fix x e s assume a: "emptyCell g x e \<and> 0 \<le> s \<and> s < e"
  then obtain t where "getTile g x e = Some t" by (auto simp: emptyCell_def split: option.splits)
  then have v: "isValidPosition g x e" by (auto simp: getTile_def split: if_splits)
  then have xin: "x \<in> set [0..width g - 1]" by (auto simp: isValidPosition_def)
  have ein: "e \<in> set (emptyPositions g x)" using a v by (auto simp: emptyPositions_set isValidPosition_def)
  have "length (snd (fold applyGravityColumn [0..width g - 1] (g, []))) \<le> length (snd (g, []::movement list))"
    using assms by (simp add: applyGravity_def)
  then have "\<forall>x \<in> set [0..width g - 1]. applyGravityColumn x (g, []) = (g, [])"
    by (rule fold_progress_stuck[OF applyGravityColumn_progress])
  then have col: "applyGravityColumn x (g, []) = (g, [])" using xin by blast
  then have "length (snd (fold (fillEmpty x) (emptyPositions g x) (g, []))) \<le> length (snd (g, []::movement list))"
    by (simp add: applyGravityColumn_def)
  then have "\<forall>e \<in> set (emptyPositions g x). fillEmpty x e (g, []) = (g, [])"
    by (rule fold_progress_stuck[OF fillEmpty_progress])
  then have "fillEmpty x e (g, []) = (g, [])" using ein by blast
  then have "findFalling g x (rev [0..e - 1]) = None" by (rule fillEmpty_stuck)
  then have "\<forall>s \<in> set (rev [0..e - 1]). \<not> canFall g x s" by (rule findFalling_None)
  then show "\<not> canFall g x s" using a by auto
qed

lemma applyGravityFully_stable:
  "snd (applyGravity (fst (applyGravityFully g))) = [] \<and>
   length (snd (applyGravityFully g)) \<le> potential g"
proof (induction g rule: applyGravityFully.induct)
  case (1 g)
  show ?case
  proof (cases "length (snd (applyGravity g)) > 0")
    case True
    have d: "potential (fst (applyGravity g)) < potential g"
      by (rule applyGravity_decreases[OF True])
    have ih: "snd (applyGravity (fst (applyGravityFully (fst (applyGravity g))))) = [] \<and>
      length (snd (applyGravityFully (fst (applyGravity g)))) \<le> potential (fst (applyGravity g))"
      using "1.IH"[OF refl True] .
    have eq: "applyGravityFully g =
       (fst (applyGravityFully (fst (applyGravity g))),
        snd (applyGravity g) # snd (applyGravityFully (fst (applyGravity g))))"
      using True by (subst applyGravityFully.simps) (simp add: Let_def)
    show ?thesis using ih d by (simp add: eq)
  next
    case False
    then have e: "snd (applyGravity g) = []" by simp
    have eq: "applyGravityFully g = (fst (applyGravity g), [])"
      using False by (subst applyGravityFully.simps) (simp add: Let_def)
    have same: "fst (applyGravity g) = g" by (rule applyGravity_no_movement[OF e])
    show ?thesis using e by (simp add: eq same)
  qed
qed

section \<open>Gravity: fixed cells\<close>

text \<open>
  \<open>keepsFixed g0 h\<close>: every cell that holds the exit tile or a stone in \<open>g0\<close> holds the same
  tile in \<open>h\<close>, and the character's cell is the same. \<open>processGravityTimes n\<close> is \<open>n\<close> calls
  of \<open>processGravity\<close> in a row, with all their movement and spawn records.
\<close>

definition fixedTile :: "tile option \<Rightarrow> bool" where
  "fixedTile c = (case c of None \<Rightarrow> False | Some t \<Rightarrow> isExit t \<or> isBlocker t)"

definition keepsFixed :: "grid_manager \<Rightarrow> grid_manager \<Rightarrow> bool" where
  "keepsFixed g0 h =
     (width h = width g0 \<and> height h = height g0 \<and>
      characterPosition h = characterPosition g0 \<and>
      (\<forall>x y. fixedTile (getTile g0 x y) \<longrightarrow> getTile h x y = getTile g0 x y))"

definition safeMoves :: "grid_manager \<Rightarrow> movement list \<Rightarrow> bool" where
  "safeMoves g ms = (\<forall>m \<in> set ms. Some (toX m, toY m) \<noteq> characterPosition g)"

definition safeSpawns :: "grid_manager \<Rightarrow> spawn list \<Rightarrow> bool" where
  "safeSpawns g ss = (\<forall>s \<in> set ss. Some (spawnX s, spawnY s) \<noteq> characterPosition g)"

lemma keepsFixed_refl: "keepsFixed g g"
  by (simp add: keepsFixed_def)

lemma keepsFixed_setTile:
  "keepsFixed g0 h \<Longrightarrow> \<not> fixedTile (getTile g0 x y) \<Longrightarrow> keepsFixed g0 (setTile h x y t)"
  by (auto simp: keepsFixed_def getTile_setTile)

lemma keepsFixed_setEmpty:
  "keepsFixed g0 h \<Longrightarrow> \<not> fixedTile (getTile g0 x y) \<Longrightarrow> keepsFixed g0 (setEmpty h x y)"
  by (simp add: setEmpty_def keepsFixed_setTile)

lemma keepsFixed_notfixed:
  assumes "keepsFixed g0 h" "\<not> isPositionFixed h x y"
  shows "\<not> fixedTile (getTile g0 x y) \<and> Some (x, y) \<noteq> characterPosition g0"
proof -
  have c: "characterPosition h = characterPosition g0" using assms(1) by (simp add: keepsFixed_def)
  have "\<not> fixedTile (getTile h x y)" using assms(2)
    by (auto simp: isPositionFixed_def fixedTile_def Let_def split: option.splits if_splits)
  moreover have "fixedTile (getTile g0 x y) \<Longrightarrow> getTile h x y = getTile g0 x y"
    using assms(1) by (simp add: keepsFixed_def)
  ultimately have a: "\<not> fixedTile (getTile g0 x y)" by auto
  have b: "Some (x, y) \<noteq> characterPosition g0" using assms(2) c
    by (auto simp: isPositionFixed_def Let_def split: option.splits if_splits)
  show ?thesis using a b by simp
qed

definition gravityInv :: "grid_manager \<Rightarrow> grid_manager \<times> movement list \<Rightarrow> bool" where
  "gravityInv g0 st = (keepsFixed g0 (fst st) \<and> safeMoves g0 (snd st))"

lemma fillEmpty_gravityInv:
  assumes inv: "gravityInv g0 st" and e: "\<not> fixedTile (getTile g0 x e)"
    and c: "Some (x, e) \<noteq> characterPosition g0"
  shows "gravityInv g0 (fillEmpty x e st)"
proof -
  obtain h ms where st: "st = (h, ms)" by (cases st)
  have k: "keepsFixed g0 h" and sm: "safeMoves g0 ms" using inv st by (auto simp: gravityInv_def)
  show ?thesis
  proof (cases "findFalling h x (rev [0..e - 1])")
    case None
    then show ?thesis using inv st by (simp add: fillEmpty_def)
  next
    case (Some a)
    obtain s t where a: "a = (s, t)" by (cases a)
    have "\<not> isPositionFixed h x s" using findFalling_Some[OF Some[unfolded a]] by simp
    then have sf: "\<not> fixedTile (getTile g0 x s)" using keepsFixed_notfixed[OF k] by simp
    have k': "keepsFixed g0 (setEmpty (setTile h x e t) x s)"
      by (intro keepsFixed_setEmpty keepsFixed_setTile k e sf)
    have sm': "safeMoves g0 (ms @ [\<lparr>fromX = x, fromY = s, toX = x, toY = e\<rparr>])"
      using sm c by (simp add: safeMoves_def)
    show ?thesis using Some a k' sm' st by (simp add: fillEmpty_def gravityInv_def)
  qed
qed

lemma applyGravityColumn_gravityInv:
  assumes inv: "gravityInv g0 st"
  shows "gravityInv g0 (applyGravityColumn x st)"
  unfolding applyGravityColumn_def
proof (rule fold_list_inv[where P = "gravityInv g0"])
  show "gravityInv g0 st" by (rule inv)
next
  fix e t assume e: "e \<in> set (emptyPositions (fst st) x)" and t: "gravityInv g0 t"
  have k: "keepsFixed g0 (fst st)" using inv by (simp add: gravityInv_def)
  have "\<not> isPositionFixed (fst st) x e" using e by (simp add: emptyPositions_set emptyCell_def)
  then have "\<not> fixedTile (getTile g0 x e) \<and> Some (x, e) \<noteq> characterPosition g0"
    by (rule keepsFixed_notfixed[OF k])
  then show "gravityInv g0 (fillEmpty x e t)" using t by (intro fillEmpty_gravityInv) auto
qed

lemma applyGravity_gravityInv:
  assumes "keepsFixed g0 g"
  shows "gravityInv g0 (applyGravity g)"
  unfolding applyGravity_def
  by (rule fold_list_inv[where P = "gravityInv g0"])
     (use assms in \<open>simp add: gravityInv_def safeMoves_def\<close>, rule applyGravityColumn_gravityInv)

lemma applyGravityFully_keeps:
  "keepsFixed g0 g \<Longrightarrow>
     keepsFixed g0 (fst (applyGravityFully g)) \<and> safeMoves g0 (concat (snd (applyGravityFully g)))"
proof (induction g rule: applyGravityFully.induct)
  case (1 g)
  have inv: "gravityInv g0 (applyGravity g)" by (rule applyGravity_gravityInv[OF "1.prems"])
  show ?case
  proof (cases "length (snd (applyGravity g)) > 0")
    case True
    have ih: "keepsFixed g0 (fst (applyGravityFully (fst (applyGravity g)))) \<and>
        safeMoves g0 (concat (snd (applyGravityFully (fst (applyGravity g)))))"
      using "1.IH"[OF refl True] inv by (simp add: gravityInv_def)
    have eq: "applyGravityFully g =
       (fst (applyGravityFully (fst (applyGravity g))),
        snd (applyGravity g) # snd (applyGravityFully (fst (applyGravity g))))"
      using True by (subst applyGravityFully.simps) (simp add: Let_def)
    show ?thesis using ih inv by (auto simp: eq gravityInv_def safeMoves_def)
  next
    case False
    have eq: "applyGravityFully g = (fst (applyGravity g), [])"
      using False by (subst applyGravityFully.simps) (simp add: Let_def)
    show ?thesis using inv by (simp add: eq gravityInv_def safeMoves_def)
  qed
qed

definition spawnInv ::
  "grid_manager \<Rightarrow> grid_manager \<times> (nat \<Rightarrow> real) \<times> spawn list \<Rightarrow> bool" where
  "spawnInv g0 st = (keepsFixed g0 (fst st) \<and> safeSpawns g0 (snd (snd st)))"

lemma spawnAt_spawnInv:
  assumes "spawnInv g0 st"
  shows "spawnInv g0 (spawnAt tps x y st)"
proof -
  obtain h rnd nt where st: "st = (h, rnd, nt)" by (cases st) auto
  have k: "keepsFixed g0 h" and ss: "safeSpawns g0 nt" using assms st by (auto simp: spawnInv_def)
  show ?thesis
  proof (cases "isPositionFixed h x y")
    case True
    then show ?thesis using assms st by (simp add: spawnAt_def)
  next
    case False
    from keepsFixed_notfixed[OF k False]
    have nf: "\<not> fixedTile (getTile g0 x y)" and nc: "Some (x, y) \<noteq> characterPosition g0" by auto
    have "keepsFixed g0 (setTile h x y t)" for t by (rule keepsFixed_setTile[OF k nf])
    moreover have "safeSpawns g0 (nt @ [\<lparr>spawnX = x, spawnY = y, spawnTile = t\<rparr>])" for t
      using ss nc by (simp add: safeSpawns_def)
    ultimately show ?thesis using assms st False
      by (auto simp: spawnAt_def spawnInv_def Let_def split: option.splits)
  qed
qed

lemma spawnNewTiles_keeps:
  assumes "keepsFixed g0 g"
  shows "spawnInv g0 (spawnNewTiles rnd g)"
  unfolding spawnNewTiles_def Let_def
proof (rule fold_list_inv[where P = "spawnInv g0"])
  show "spawnInv g0 (g, rnd, [])" using assms by (simp add: spawnInv_def safeSpawns_def)
next
  fix x t assume "spawnInv g0 t"
  then show "spawnInv g0 (fold (spawnAt (case tileTypes g of None \<Rightarrow> MATCHABLE_COLORS | Some l \<Rightarrow> l) x)
                                [0..height g - 1] t)"
    by (intro fold_list_inv[where P = "spawnInv g0"] spawnAt_spawnInv)
qed

lemma processGravity_keeps:
  assumes "keepsFixed g0 g"
  shows "keepsFixed g0 (fst (processGravity rnd g)) \<and>
         safeMoves g0 (fst (snd (snd (processGravity rnd g)))) \<and>
         safeSpawns g0 (snd (snd (snd (processGravity rnd g))))"
proof -
  let ?r1 = "applyGravityFully g"
  let ?r2 = "spawnNewTiles rnd (fst ?r1)"
  let ?r3 = "applyGravityFully (fst ?r2)"
  have a: "keepsFixed g0 (fst ?r1)" "safeMoves g0 (concat (snd ?r1))"
    using applyGravityFully_keeps[OF assms] by auto
  have b: "keepsFixed g0 (fst ?r2)" "safeSpawns g0 (snd (snd ?r2))"
    using spawnNewTiles_keeps[OF a(1), of rnd] by (auto simp: spawnInv_def)
  have c: "keepsFixed g0 (fst ?r3)" "safeMoves g0 (concat (snd ?r3))"
    using applyGravityFully_keeps[OF b(1)] by auto
  have app: "safeMoves g0 (concat (snd ?r1) @ concat (snd ?r3))"
    using a(2) c(2) by (auto simp: safeMoves_def)
  show ?thesis using a b c app by (auto simp: processGravity_def Let_def safeSpawns_def)
qed

fun processGravityTimes ::
  "nat \<Rightarrow> (nat \<Rightarrow> real) \<Rightarrow> grid_manager
     \<Rightarrow> grid_manager \<times> (nat \<Rightarrow> real) \<times> movement list \<times> spawn list" where
  "processGravityTimes 0 rnd g = (g, rnd, [], [])"
| "processGravityTimes (Suc n) rnd g =
     (let r = processGravity rnd g;
          rest = processGravityTimes n (fst (snd r)) (fst r)
      in (fst rest, fst (snd rest),
          fst (snd (snd r)) @ fst (snd (snd rest)),
          snd (snd (snd r)) @ snd (snd (snd rest))))"

lemma processGravityTimes_keeps:
  "keepsFixed g0 g \<Longrightarrow>
     keepsFixed g0 (fst (processGravityTimes n rnd g)) \<and>
     safeMoves g0 (fst (snd (snd (processGravityTimes n rnd g)))) \<and>
     safeSpawns g0 (snd (snd (snd (processGravityTimes n rnd g))))"
proof (induction n arbitrary: rnd g)
  case 0
  then show ?case by (simp add: safeMoves_def safeSpawns_def)
next
  case (Suc n)
  let ?r = "processGravity rnd g"
  have a: "keepsFixed g0 (fst ?r)" "safeMoves g0 (fst (snd (snd ?r)))" "safeSpawns g0 (snd (snd (snd ?r)))"
    using processGravity_keeps[OF Suc.prems, of rnd] by auto
  from Suc.IH[OF a(1), of "fst (snd ?r)"] a(2,3)
  show ?case by (auto simp: Let_def safeMoves_def safeSpawns_def)
qed

section \<open>Spawning\<close>

lemma pickRandom_cases: "pickRandom cs r = UNDEFINED \<or> pickRandom cs r \<in> set cs"
proof (cases "0 \<le> \<lfloor>r * real (length cs)\<rfloor> \<and> \<lfloor>r * real (length cs)\<rfloor> < int (length cs)")
  case True
  then have "nat \<lfloor>r * real (length cs)\<rfloor> < length cs" by linarith
  then have "cs ! nat \<lfloor>r * real (length cs)\<rfloor> \<in> set cs" by (rule nth_mem)
  then show ?thesis using True by (simp add: pickRandom_def Let_def)
next
  case False
  then show ?thesis by (auto simp: pickRandom_def Let_def)
qed




lemma excludeRun_subset: "set (excludeRun a b tps) \<subseteq> set tps"
proof (cases a; cases b)
  fix ta tb assume "a = Some ta" "b = Some tb"
  then show ?thesis using set_remove1_subset[of "tileType ta" tps]
    by (auto simp: excludeRun_def)
qed (simp_all add: excludeRun_def)

lemma availableTypes_subset: "set (availableTypes h x y tps) \<subseteq> set tps"
proof -
  let ?a1 = "if x \<ge> 2 then excludeRun (grid h y (x - 1)) (grid h y (x - 2)) tps else tps"
  have 1: "set ?a1 \<subseteq> set tps" by (simp add: excludeRun_subset)
  have 2: "set (if y \<ge> 2 then excludeRun (grid h (y - 1) x) (grid h (y - 2) x) ?a1 else ?a1) \<subseteq> set ?a1"
    by (cases "y \<ge> 2") (simp_all only: if_True if_False excludeRun_subset subset_refl)
  show ?thesis unfolding availableTypes_def Let_def using 1 2 by (rule_tac order_trans)
qed

lemma candidateTypes_subset: "set (candidateTypes h x y tps) \<subseteq> set tps"
  using availableTypes_subset by (auto simp: candidateTypes_def Let_def)

lemma distinct_excludeRun: "distinct tps \<Longrightarrow> distinct (excludeRun a b tps)"
  by (auto simp: excludeRun_def split: option.splits)

lemma excludeRun_removes:
  assumes "distinct tps" "a = Some ta" "b = Some tb" "tileType ta = c" "tileType tb = c" "isMatchable ta"
  shows "c \<notin> set (excludeRun a b tps)"
  using assms by (simp add: excludeRun_def)

lemma availableTypes_excludes_left:
  assumes "distinct tps" "x \<ge> 2" "grid h y (x - 1) = Some ta" "grid h y (x - 2) = Some tb"
    "tileType ta = c" "tileType tb = c" "isMatchable ta"
  shows "c \<notin> set (availableTypes h x y tps)"
proof -
  have "c \<notin> set (excludeRun (grid h y (x - 1)) (grid h y (x - 2)) tps)"
    by (rule excludeRun_removes[OF assms(1,3,4,5,6,7)])
  then have "c \<notin> set (if x \<ge> 2 then excludeRun (grid h y (x - 1)) (grid h y (x - 2)) tps else tps)"
    using assms(2) by simp
  moreover have "set (availableTypes h x y tps) \<subseteq>
      set (if x \<ge> 2 then excludeRun (grid h y (x - 1)) (grid h y (x - 2)) tps else tps)"
    unfolding availableTypes_def Let_def
    by (cases "y \<ge> 2") (simp_all only: if_True if_False excludeRun_subset subset_refl)
  ultimately show ?thesis by blast
qed

lemma availableTypes_excludes_top:
  assumes "distinct tps" "y \<ge> 2" "grid h (y - 1) x = Some ta" "grid h (y - 2) x = Some tb"
    "tileType ta = c" "tileType tb = c" "isMatchable ta"
  shows "c \<notin> set (availableTypes h x y tps)"
proof -
  have d: "distinct (if x \<ge> 2 then excludeRun (grid h y (x - 1)) (grid h y (x - 2)) tps else tps)"
    using assms(1) by (simp add: distinct_excludeRun)
  show ?thesis using assms(2) excludeRun_removes[OF d assms(3,4,5,6,7)]
    by (simp add: availableTypes_def Let_def)
qed

lemma emptyCell_setTile_other:
  "(x', y') \<noteq> (x, y) \<Longrightarrow> emptyCell (setTile h x y t) x' y' = emptyCell h x' y'"
  by (auto simp: emptyCell_def isPositionFixed_def getTile_setTile Let_def)

lemma emptyCell_setTile_here:
  "tileType t \<noteq> EMPTY \<Longrightarrow> \<not> emptyCell (setTile h x y t) x y"
proof (cases "isValidPosition h x y")
  case True
  assume "tileType t \<noteq> EMPTY"
  then show ?thesis using True by (simp add: emptyCell_def getTile_setTile isEmpty_def)
next
  case False
  then have "getTile (setTile h x y t) x y = None" by (simp add: getTile_def)
  then show ?thesis by (simp add: emptyCell_def)
qed

lemma createNonMatchingTile_not_empty:
  assumes "EMPTY \<notin> set tps"
  shows "tileType (createNonMatchingTile h x y tps r) \<noteq> EMPTY"
proof -
  have "pickRandom (candidateTypes h x y tps) r \<noteq> EMPTY"
    using pickRandom_cases[of "candidateTypes h x y tps" r] candidateTypes_subset[of h x y tps] assms
    by auto
  then show ?thesis by (simp add: createNonMatchingTile_def newTile_def)
qed

lemma spawnAt_no_new_empty:
  assumes "EMPTY \<notin> set tps" "\<not> emptyCell (fst st) x' y'"
  shows "\<not> emptyCell (fst (spawnAt tps x y st)) x' y'"
proof -
  obtain h rnd nt where st: "st = (h, rnd, nt)" by (cases st) auto
  have ne: "tileType (createNonMatchingTile h x y tps (rnd 0)) \<noteq> EMPTY"
    by (rule createNonMatchingTile_not_empty[OF assms(1)])
  have "\<not> emptyCell (setTile h x y (createNonMatchingTile h x y tps (rnd 0))) x' y'"
  proof (cases "(x', y') = (x, y)")
    case True
    then show ?thesis using emptyCell_setTile_here[OF ne] by simp
  next
    case False
    then show ?thesis using assms(2) st by (simp add: emptyCell_setTile_other)
  qed
  then show ?thesis using assms(2) st
    by (auto simp: spawnAt_def Let_def split: option.splits)
qed

lemma spawnAt_settles:
  assumes "EMPTY \<notin> set tps"
  shows "\<not> emptyCell (fst (spawnAt tps x y st)) x y"
proof (cases "emptyCell (fst st) x y")
  case False
  then show ?thesis by (rule spawnAt_no_new_empty[OF assms])
next
  case True
  obtain h rnd nt where st: "st = (h, rnd, nt)" by (cases st) auto
  have ne: "tileType (createNonMatchingTile h x y tps (rnd 0)) \<noteq> EMPTY"
    by (rule createNonMatchingTile_not_empty[OF assms])
  have "fst (spawnAt tps x y st) = setTile h x y (createNonMatchingTile h x y tps (rnd 0))"
    using True st by (auto simp: spawnAt_def emptyCell_def Let_def split: option.splits)
  then show ?thesis using emptyCell_setTile_here[OF ne] by simp
qed

lemma fold_establish:
  assumes est: "\<And>c st. S c (f c st)" and pres: "\<And>c c' st. S c' st \<Longrightarrow> S c' (f c st)"
  shows "\<forall>c \<in> set cs. S c (fold f cs st)"
proof (induction cs rule: rev_induct)
  case Nil
  show ?case by simp
next
  case (snoc c cs)
  show ?case using snoc.IH est pres by auto
qed

lemma spawnColumn_no_new_empty:
  assumes "EMPTY \<notin> set tps" "\<not> emptyCell (fst st) x' y'"
  shows "\<not> emptyCell (fst (fold (spawnAt tps x) ys st)) x' y'"
  by (rule fold_list_inv[where P = "\<lambda>t. \<not> emptyCell (fst t) x' y'"])
     (rule assms(2), rule spawnAt_no_new_empty[OF assms(1)])

lemma spawnNewTiles_fills:
  assumes "EMPTY \<notin> set (case tileTypes g of None \<Rightarrow> MATCHABLE_COLORS | Some l \<Rightarrow> l)"
    and "isValidPosition g x y"
  shows "\<not> emptyCell (fst (spawnNewTiles rnd g)) x y"
proof -
  let ?tps = "case tileTypes g of None \<Rightarrow> MATCHABLE_COLORS | Some l \<Rightarrow> l"
  let ?ys = "[0..height g - 1]"
  have inner: "\<forall>y \<in> set ?ys. \<not> emptyCell (fst (fold (spawnAt ?tps c) ?ys st)) c y" for c st
    by (rule fold_establish[where S = "\<lambda>y t. \<not> emptyCell (fst t) c y"])
       (rule spawnAt_settles[OF assms(1)], rule spawnAt_no_new_empty[OF assms(1)])
  have outer: "\<forall>c \<in> set [0..width g - 1].
      (\<forall>y \<in> set ?ys. \<not> emptyCell (fst (fold (\<lambda>x. fold (spawnAt ?tps x) ?ys) [0..width g - 1] (g, rnd, []))) c y)"
  proof (rule fold_establish[where S = "\<lambda>c t. \<forall>y \<in> set ?ys. \<not> emptyCell (fst t) c y"])
    show "\<And>c st. \<forall>y \<in> set ?ys. \<not> emptyCell (fst (fold (spawnAt ?tps c) ?ys st)) c y"
      by (rule inner)
    show "\<And>c c' st. \<forall>y \<in> set ?ys. \<not> emptyCell (fst st) c' y \<Longrightarrow>
            \<forall>y \<in> set ?ys. \<not> emptyCell (fst (fold (spawnAt ?tps c) ?ys st)) c' y"
      using spawnColumn_no_new_empty[OF assms(1)] by blast
  qed
  have "x \<in> set [0..width g - 1]" "y \<in> set ?ys" using assms(2) by (auto simp: isValidPosition_def)
  then show ?thesis using outer by (simp add: spawnNewTiles_def Let_def)
qed

lemma spawnAt_colour:
  assumes "emptyCell h x y"
  shows "map_option tileType (getTile (fst (spawnAt tps x y (h, rnd, nt))) x y) =
           Some (pickRandom (candidateTypes h x y tps) (rnd 0))"
proof -
  from assms obtain t where t: "getTile h x y = Some t" "isEmpty t" "\<not> isPositionFixed h x y"
    by (auto simp: emptyCell_def split: option.splits)
  then have v: "isValidPosition h x y" by (auto simp: getTile_def split: if_splits)
  show ?thesis using t v
    by (simp add: spawnAt_def Let_def getTile_setTile createNonMatchingTile_def newTile_def)
qed

section \<open>Initialization: no run of three\<close>

text \<open>
  \<open>noRunAt g x y\<close>: the cell (x, y) does not end a run of three matchable tiles of one
  colour, neither with the two cells to its left nor with the two cells above it.
  \<open>preplaced\<close> is a cell that is still \<open>null\<close> or holds a tile that is not matchable, as the
  blockers, the exit and the character's cell are. \<open>fillInv w h y x\<close> is the invariant of
  the filling loop before it visits column \<open>x\<close> of row \<open>y\<close>, as long as no cell has taken the
  fallback: the cells visited end no run, the others are as they were placed.
\<close>

definition noRunAt :: "grid_manager \<Rightarrow> int \<Rightarrow> int \<Rightarrow> bool" where
  "noRunAt g x y =
     (\<not> (\<exists>c. matchableType g x y = Some c \<and> matchableType g (x - 1) y = Some c \<and>
              matchableType g (x - 2) y = Some c) \<and>
      \<not> (\<exists>c. matchableType g x y = Some c \<and> matchableType g x (y - 1) = Some c \<and>
              matchableType g x (y - 2) = Some c))"

lemma noRunAt_no_hRun:
  assumes "\<forall>x y. noRunAt g x y"
  shows "\<not> hRun g m"
proof
  assume "hRun g m"
  then obtain s y where l: "matchLength m \<ge> 3"
    and a: "\<forall>i. s \<le> i \<and> i < s + matchLength m \<longrightarrow> matchableType g i y = Some (color m)"
    unfolding hRun_def by blast
  have "matchableType g (s + 2) y = Some (color m)" "matchableType g (s + 2 - 1) y = Some (color m)"
       "matchableType g (s + 2 - 2) y = Some (color m)"
    using a l by auto
  then have "\<not> noRunAt g (s + 2) y" unfolding noRunAt_def by blast
  then show False using assms by blast
qed

lemma noRunAt_no_vRun:
  assumes "\<forall>x y. noRunAt g x y"
  shows "\<not> vRun g m"
proof
  assume "vRun g m"
  then obtain s x where l: "matchLength m \<ge> 3"
    and a: "\<forall>j. s \<le> j \<and> j < s + matchLength m \<longrightarrow> matchableType g x j = Some (color m)"
    unfolding vRun_def by blast
  have "matchableType g x (s + 2) = Some (color m)" "matchableType g x (s + 2 - 1) = Some (color m)"
       "matchableType g x (s + 2 - 2) = Some (color m)"
    using a l by auto
  then have "\<not> noRunAt g x (s + 2)" unfolding noRunAt_def by blast
  then show False using assms by blast
qed

lemma noRunAt_no_matches:
  assumes "\<forall>x y. noRunAt g x y"
  shows "findAllMatches g = []"
proof -
  have "\<forall>m \<in> set (findAllMatches g). False"
    by (rule findAllMatches_sound) (use noRunAt_no_hRun[OF assms] noRunAt_no_vRun[OF assms] in auto)
  then show ?thesis by (cases "findAllMatches g") auto
qed

lemma writeCell_dims [simp]:
  "width (writeCell g x y v) = width g" "height (writeCell g x y v) = height g"
  "characterPosition (writeCell g x y v) = characterPosition g"
  "exitPosition (writeCell g x y v) = exitPosition g"
  "tileTypes (writeCell g x y v) = tileTypes g"
  by (simp_all add: writeCell_def)

lemma grid_writeCell:
  "grid (writeCell g x y v) y' x' = (if x' = x \<and> y' = y then v else grid g y' x')"
  by (simp add: writeCell_def)

lemma matchableType_writeCell_other:
  "(x', y') \<noteq> (x, y) \<Longrightarrow> matchableType (writeCell g x y v) x' y' = matchableType g x' y'"
  by (auto simp: matchableType_def getTile_def isValidPosition_def grid_writeCell)

lemma matchableType_valid:
  "matchableType g x y = Some c \<Longrightarrow>
     isValidPosition g x y \<and> (\<exists>t. grid g y x = Some t \<and> isMatchable t \<and> tileType t = c)"
  by (auto simp: matchableType_def getTile_def split: option.splits if_splits)

lemma noRunAt_writeCell_earlier:
  assumes "y' < y \<or> (y' = y \<and> x' < x)"
  shows "noRunAt (writeCell g x y v) x' y' = noRunAt g x' y'"
proof -
  have n: "(x', y') \<noteq> (x, y)" "(x' - 1, y') \<noteq> (x, y)" "(x' - 2, y') \<noteq> (x, y)"
       "(x', y' - 1) \<noteq> (x, y)" "(x', y' - 2) \<noteq> (x, y)"
    using assms by auto
  show ?thesis unfolding noRunAt_def
    by (simp only: matchableType_writeCell_other[OF n(1)] matchableType_writeCell_other[OF n(2)]
        matchableType_writeCell_other[OF n(3)] matchableType_writeCell_other[OF n(4)]
        matchableType_writeCell_other[OF n(5)])
qed

definition preplaced :: "grid_manager \<Rightarrow> int \<Rightarrow> int \<Rightarrow> bool" where
  "preplaced g x y = (case grid g y x of None \<Rightarrow> True | Some t \<Rightarrow> \<not> isMatchable t)"

definition fillInv ::
  "int \<Rightarrow> int \<Rightarrow> int \<Rightarrow> int \<Rightarrow> grid_manager \<times> (nat \<Rightarrow> real) \<times> (int \<times> int) list \<Rightarrow> bool" where
  "fillInv w h y x st =
     (case st of (g, rnd, fb) \<Rightarrow>
        width g = w \<and> height g = h \<and>
        (fb = [] \<longrightarrow>
           (\<forall>x' y'. 0 \<le> x' \<and> x' < w \<and> 0 \<le> y' \<and> y' < h \<longrightarrow>
              (if y' < y \<or> (y' = y \<and> x' < x) then noRunAt g x' y' else preplaced g x' y'))))"

lemma pickRandom_matchable:
  assumes "isMatchable (newTile (pickRandom cs r) x y)"
  shows "pickRandom cs r \<in> set cs"
proof -
  have "pickRandom cs r \<noteq> UNDEFINED" using assms
    by (auto simp: isMatchable_def newTile_def MATCHABLE_COLORS_def)
  then show ?thesis using pickRandom_cases[of cs r] by simp
qed

lemma fresh_tile_noRunAt:
  assumes d: "distinct tps" and av: "availableTypes g x y tps \<noteq> []"
    and v: "isValidPosition g x y"
  shows "noRunAt (writeCell g x y (Some (createNonMatchingTile g x y tps r))) x y"
proof -
  let ?t = "createNonMatchingTile g x y tps r"
  let ?g = "writeCell g x y (Some ?t)"
  have cand: "candidateTypes g x y tps = availableTypes g x y tps"
    using av by (simp add: candidateTypes_def Let_def)
  have here: "matchableType ?g x y = Some c \<Longrightarrow> c \<in> set (availableTypes g x y tps)" for c
  proof -
    assume "matchableType ?g x y = Some c"
    then have "isMatchable ?t" "tileType ?t = c"
      using matchableType_valid[of ?g x y c] by (auto simp: grid_writeCell)
    then show ?thesis
      using pickRandom_matchable[of "candidateTypes g x y tps" r x y] cand
      by (simp add: createNonMatchingTile_def newTile_def)
  qed
  have left: "\<not> (\<exists>c. matchableType ?g x y = Some c \<and> matchableType ?g (x - 1) y = Some c \<and>
              matchableType ?g (x - 2) y = Some c)"
  proof
    assume "\<exists>c. matchableType ?g x y = Some c \<and> matchableType ?g (x - 1) y = Some c \<and>
              matchableType ?g (x - 2) y = Some c"
    then obtain c where c: "matchableType ?g x y = Some c" "matchableType ?g (x - 1) y = Some c"
      "matchableType ?g (x - 2) y = Some c" by blast
    have m1: "matchableType g (x - 1) y = Some c" using c(2) by (simp add: matchableType_writeCell_other)
    have m2: "matchableType g (x - 2) y = Some c" using c(3) by (simp add: matchableType_writeCell_other)
    from matchableType_valid[OF m1] obtain ta where ta: "grid g y (x - 1) = Some ta" "isMatchable ta" "tileType ta = c" by blast
    from matchableType_valid[OF m2] obtain tb where tb: "grid g y (x - 2) = Some tb" "tileType tb = c"
      and x2: "isValidPosition g (x - 2) y" by blast
    have "x \<ge> 2" using x2 by (simp add: isValidPosition_def)
    then have "c \<notin> set (availableTypes g x y tps)"
      using availableTypes_excludes_left[OF d _ ta(1) tb(1) ta(3) tb(2) ta(2)] by simp
    then show False using here[OF c(1)] by simp
  qed
  have top: "\<not> (\<exists>c. matchableType ?g x y = Some c \<and> matchableType ?g x (y - 1) = Some c \<and>
              matchableType ?g x (y - 2) = Some c)"
  proof
    assume "\<exists>c. matchableType ?g x y = Some c \<and> matchableType ?g x (y - 1) = Some c \<and>
              matchableType ?g x (y - 2) = Some c"
    then obtain c where c: "matchableType ?g x y = Some c" "matchableType ?g x (y - 1) = Some c"
      "matchableType ?g x (y - 2) = Some c" by blast
    have m1: "matchableType g x (y - 1) = Some c" using c(2) by (simp add: matchableType_writeCell_other)
    have m2: "matchableType g x (y - 2) = Some c" using c(3) by (simp add: matchableType_writeCell_other)
    from matchableType_valid[OF m1] obtain ta where ta: "grid g (y - 1) x = Some ta" "isMatchable ta" "tileType ta = c" by blast
    from matchableType_valid[OF m2] obtain tb where tb: "grid g (y - 2) x = Some tb" "tileType tb = c"
      and y2: "isValidPosition g x (y - 2)" by blast
    have "y \<ge> 2" using y2 by (simp add: isValidPosition_def)
    then have "c \<notin> set (availableTypes g x y tps)"
      using availableTypes_excludes_top[OF d _ ta(1) tb(1) ta(3) tb(2) ta(2)] by simp
    then show False using here[OF c(1)] by simp
  qed
  show ?thesis unfolding noRunAt_def using left top by simp
qed

lemma preplaced_noRunAt:
  assumes "preplaced g x y" "grid g y x \<noteq> None"
  shows "noRunAt g x y"
proof -
  have "matchableType g x y = None" using assms
    by (auto simp: preplaced_def matchableType_def getTile_def split: option.splits)
  then show ?thesis by (simp add: noRunAt_def)
qed

lemma fillCell_fillInv:
  assumes d: "distinct tps" and inv: "fillInv w h y x st"
    and x: "0 \<le> x" "x < w" and y: "0 \<le> y" "y < h"
  shows "fillInv w h y (x + 1) (fillCell tps y x st)"
proof -
  obtain g rnd fb where st: "st = (g, rnd, fb)" by (cases st) auto
  have dims: "width g = w" "height g = h" using inv st by (auto simp: fillInv_def)
  have v: "isValidPosition g x y" using x y dims by (simp add: isValidPosition_def)
  show ?thesis
  proof (cases "grid g y x")
    case (Some t)
    have r: "fillCell tps y x (g, rnd, fb) = (g, rnd, fb)" using Some by (simp add: fillCell_def)
    have "fb = [] \<Longrightarrow> 0 \<le> x' \<Longrightarrow> x' < w \<Longrightarrow> 0 \<le> y' \<Longrightarrow> y' < h \<Longrightarrow>
       (if y' < y \<or> (y' = y \<and> x' < x + 1) then noRunAt g x' y' else preplaced g x' y')" for x' y'
    proof -
      assume a: "fb = []" "0 \<le> x'" "x' < w" "0 \<le> y'" "y' < h"
      have old: "if y' < y \<or> (y' = y \<and> x' < x) then noRunAt g x' y' else preplaced g x' y'"
        using inv st a by (simp add: fillInv_def)
      show ?thesis
      proof (cases "x' = x \<and> y' = y")
        case True
        then have "preplaced g x y" using old by simp
        then have "noRunAt g x y" using Some by (intro preplaced_noRunAt) auto
        then show ?thesis using True by simp
      next
        case False
        then have "(y' < y \<or> (y' = y \<and> x' < x + 1)) = (y' < y \<or> (y' = y \<and> x' < x))" by auto
        then show ?thesis using old by simp
      qed
    qed
    then show ?thesis unfolding st r fillInv_def prod.case using dims by blast
  next
    case None
    let ?g = "writeCell g x y (Some (createNonMatchingTile g x y tps (rnd 0)))"
    let ?fb = "if length (availableTypes g x y tps) > 0 then fb else fb @ [(x, y)]"
    have r: "fillCell tps y x (g, rnd, fb) = (?g, (\<lambda>n. rnd (Suc n)), ?fb)"
      using None by (simp add: fillCell_def)
    have "?fb = [] \<Longrightarrow> 0 \<le> x' \<Longrightarrow> x' < w \<Longrightarrow> 0 \<le> y' \<Longrightarrow> y' < h \<Longrightarrow>
       (if y' < y \<or> (y' = y \<and> x' < x + 1) then noRunAt ?g x' y' else preplaced ?g x' y')" for x' y'
    proof -
      assume a: "?fb = []" "0 \<le> x'" "x' < w" "0 \<le> y'" "y' < h"
      have fb: "fb = []" and av: "availableTypes g x y tps \<noteq> []"
        using a(1) by (auto split: if_splits)
      have old: "if y' < y \<or> (y' = y \<and> x' < x) then noRunAt g x' y' else preplaced g x' y'"
        using inv st a fb by (simp add: fillInv_def)
      show ?thesis
      proof (cases "x' = x \<and> y' = y")
        case True
        have "noRunAt ?g x y" by (rule fresh_tile_noRunAt[OF d av v])
        then show ?thesis using True by simp
      next
        case False
        show ?thesis
        proof (cases "y' < y \<or> (y' = y \<and> x' < x)")
          case True
          then have "noRunAt ?g x' y'" using old by (simp add: noRunAt_writeCell_earlier)
          then show ?thesis using True by auto
        next
          case nd: False
          then have "preplaced g x' y'" using old by simp
          then have "preplaced ?g x' y'" using False by (auto simp: preplaced_def grid_writeCell)
          moreover have "\<not> (y' < y \<or> (y' = y \<and> x' < x + 1))" using nd False by auto
          ultimately show ?thesis by auto
        qed
      qed
    qed
    moreover have "width ?g = w" "height ?g = h" using dims by simp_all
    ultimately show ?thesis unfolding st r fillInv_def prod.case by blast
  qed
qed

lemma fillRow_fillInv:
  assumes d: "distinct tps" and inv: "fillInv w h y 0 st" and y: "0 \<le> y" "y < h" and w: "0 \<le> w"
  shows "fillInv w h (y + 1) 0 (fold (fillCell tps y) [0..w - 1] st)"
proof -
  have "fillInv w h y (w - 1 + 1) (fold (fillCell tps y) [0..w - 1] st)"
  proof (rule fold_upto_inv[where P = "fillInv w h y"])
    show "fillInv w h y 0 st" by (rule inv)
    show "0 \<le> w - 1 + 1" using w by simp
    show "\<And>k t. 0 \<le> k \<Longrightarrow> k \<le> w - 1 \<Longrightarrow> fillInv w h y k t \<Longrightarrow> fillInv w h y (k + 1) (fillCell tps y k t)"
      using fillCell_fillInv[OF d _ _ _ y] by simp
  qed
  then have a: "fillInv w h y w (fold (fillCell tps y) [0..w - 1] st)" by simp
  obtain g rnd fb where r: "fold (fillCell tps y) [0..w - 1] st = (g, rnd, fb)"
    by (cases "fold (fillCell tps y) [0..w - 1] st") auto
  have a': "width g = w" "height g = h"
    "\<And>x' y'. fb = [] \<Longrightarrow> 0 \<le> x' \<Longrightarrow> x' < w \<Longrightarrow> 0 \<le> y' \<Longrightarrow> y' < h \<Longrightarrow>
       (if y' < y \<or> (y' = y \<and> x' < w) then noRunAt g x' y' else preplaced g x' y')"
    using a unfolding r fillInv_def prod.case by blast+
  show ?thesis unfolding r fillInv_def prod.case
  proof (intro conjI impI allI)
    show "width g = w" "height g = h" by (rule a')+
  next
    fix x' y' assume fb: "fb = []" and b: "0 \<le> x' \<and> x' < w \<and> 0 \<le> y' \<and> y' < h"
    have "(y' < y + 1 \<or> (y' = y + 1 \<and> x' < 0)) = (y' < y \<or> (y' = y \<and> x' < w))"
      using b by auto
    then show "if y' < y + 1 \<or> (y' = y + 1 \<and> x' < 0) then noRunAt g x' y' else preplaced g x' y'"
      using a'(3)[OF fb, of x' y'] b by simp
  qed
qed

lemma fill_fillInv:
  assumes d: "distinct tps" and inv: "fillInv w h 0 0 st" and w: "0 \<le> w" and h: "0 \<le> h"
  shows "fillInv w h h 0 (fold (\<lambda>y. fold (fillCell tps y) [0..w - 1]) [0..h - 1] st)"
proof -
  have "fillInv w h (h - 1 + 1) 0 (fold (\<lambda>y. fold (fillCell tps y) [0..w - 1]) [0..h - 1] st)"
  proof (rule fold_upto_inv[where P = "\<lambda>y. fillInv w h y 0"])
    show "fillInv w h 0 0 st" by (rule inv)
    show "0 \<le> h - 1 + 1" using h by simp
    show "\<And>k t. 0 \<le> k \<Longrightarrow> k \<le> h - 1 \<Longrightarrow> fillInv w h k 0 t \<Longrightarrow>
            fillInv w h (k + 1) 0 (fold (fillCell tps k) [0..w - 1] t)"
      using fillRow_fillInv[OF d _ _ _ w] by simp
  qed
  then show ?thesis by simp
qed

definition preOK :: "int \<Rightarrow> int \<Rightarrow> error + grid_manager \<Rightarrow> bool" where
  "preOK w h r =
     (case r of
        Inl e \<Rightarrow> True
      | Inr g \<Rightarrow> width g = w \<and> height g = h \<and> (\<forall>x y. preplaced g x y))"

lemma preplaced_writeCell:
  "preplaced (writeCell g x y (Some t)) x' y' =
     (if x' = x \<and> y' = y then \<not> isMatchable t else preplaced g x' y')"
  by (simp add: preplaced_def grid_writeCell)

lemma assignCell_preOK:
  assumes "preOK w h r" "\<not> isMatchable t"
  shows "preOK w h (assignCell x y t r)"
  using assms
  by (cases r) (auto simp: preOK_def assignCell_def preplaced_writeCell)

lemma blockerTile_not_matchable:
  "blockerType b \<notin> set MATCHABLE_COLORS \<Longrightarrow> \<not> isMatchable (blockerTile b)"
  by (auto simp: blockerTile_def isMatchable_def newTile_def addIce_def lock_def Let_def
           split: option.splits)

lemma fixed_tiles_not_matchable:
  "\<not> isMatchable (newTile EXIT x y)" "\<not> isMatchable (newTile EMPTY x y)"
  by (simp_all add: isMatchable_def newTile_def MATCHABLE_COLORS_def)

lemma fillCell_dims:
  "width (fst (fillCell tps y x st)) = width (fst st) \<and>
   height (fst (fillCell tps y x st)) = height (fst st)"
  by (cases st) (auto simp: fillCell_def split: option.splits)

lemma fill_dims:
  "width (fst (fold (\<lambda>y. fold (fillCell tps y) xs) ys st)) = width (fst st) \<and>
   height (fst (fold (\<lambda>y. fold (fillCell tps y) xs) ys st)) = height (fst st)"
proof (rule fold_list_inv[where P = "\<lambda>t. width (fst t) = width (fst st) \<and> height (fst t) = height (fst st)"])
  show "width (fst st) = width (fst st) \<and> height (fst st) = height (fst st)" by simp
next
  fix y and t :: "grid_manager \<times> (nat \<Rightarrow> real) \<times> (int \<times> int) list"
  assume a: "width (fst t) = width (fst st) \<and> height (fst t) = height (fst st)"
  show "width (fst (fold (fillCell tps y) xs t)) = width (fst st) \<and>
        height (fst (fold (fillCell tps y) xs t)) = height (fst st)"
    by (rule fold_list_inv[where P = "\<lambda>u. width (fst u) = width (fst st) \<and> height (fst u) = height (fst st)"])
       (rule a, simp add: fillCell_dims)
qed

lemma length_excludeRun: "length tps - 1 \<le> length (excludeRun a b tps)"
  by (auto simp: excludeRun_def length_remove1 split: option.splits)

lemma availableTypes_nonempty:
  assumes "3 \<le> length tps"
  shows "length (availableTypes g x y tps) > 0"
proof -
  define a1 where "a1 = (if x \<ge> 2 then excludeRun (grid g y (x - 1)) (grid g y (x - 2)) tps else tps)"
  define a2 where "a2 = (if y \<ge> 2 then excludeRun (grid g (y - 1) x) (grid g (y - 2) x) a1 else a1)"
  have 1: "length tps - 1 \<le> length a1"
    unfolding a1_def using length_excludeRun[of tps] by auto
  have 2: "length a1 - 1 \<le> length a2"
    unfolding a2_def using length_excludeRun[of a1] by auto
  have e: "availableTypes g x y tps = a2"
    by (simp add: availableTypes_def Let_def a1_def a2_def)
  have "0 < length a2" using 1 2 assms by linarith
  then show ?thesis by (simp only: e)
qed

lemma fillCell_no_fallback:
  assumes "3 \<le> length tps" "snd (snd st) = []"
  shows "snd (snd (fillCell tps y x st)) = []"
  using assms availableTypes_nonempty[OF assms(1)]
  by (cases st) (auto simp: fillCell_def split: option.splits)

lemma fill_no_fallback:
  assumes "3 \<le> length tps" "snd (snd st) = []"
  shows "snd (snd (fold (\<lambda>y. fold (fillCell tps y) xs) ys st)) = []"
proof (rule fold_list_inv[where P = "\<lambda>t. snd (snd t) = []"])
  show "snd (snd st) = []" by (rule assms(2))
next
  fix y and t :: "grid_manager \<times> (nat \<Rightarrow> real) \<times> (int \<times> int) list"
  assume a: "snd (snd t) = []"
  show "snd (snd (fold (fillCell tps y) xs t)) = []"
    by (rule fold_list_inv[where P = "\<lambda>u. snd (snd u) = []"])
       (rule a, rule fillCell_no_fallback[OF assms(1)])
qed

lemma no_valid_no_matches:
  assumes "\<forall>x y. \<not> isValidPosition g x y"
  shows "findAllMatches g = []"
proof (rule noRunAt_no_matches)
  have "matchableType g x y = None" for x y using assms by (simp add: matchableType_def getTile_def)
  then show "\<forall>x y. noRunAt g x y" by (simp add: noRunAt_def)
qed

lemma fillInv_final:
  assumes "fillInv w h h 0 (g, rnd, [])"
  shows "findAllMatches g = []"
proof (rule noRunAt_no_matches, intro allI)
  fix x y
  have dims: "width g = w" "height g = h" using assms by (auto simp: fillInv_def)
  show "noRunAt g x y"
  proof (cases "isValidPosition g x y")
    case True
    then show ?thesis using assms dims by (auto simp: fillInv_def isValidPosition_def)
  next
    case False
    then have "matchableType g x y = None" by (simp add: matchableType_def getTile_def)
    then show ?thesis by (simp add: noRunAt_def)
  qed
qed

section \<open>Swapping back\<close>

definition coordsAgree :: "grid_manager \<Rightarrow> int \<Rightarrow> int \<Rightarrow> bool" where
  "coordsAgree g x y = (case grid g y x of None \<Rightarrow> True | Some t \<Rightarrow> tileX t = x \<and> tileY t = y)"

lemma coords_id:
  "coordsAgree g x y \<Longrightarrow> map_option (\<lambda>t. t\<lparr>tileX := x, tileY := y\<rparr>) (grid g y x) = grid g y x"
  by (auto simp: coordsAgree_def split: option.splits)

lemma swap_swap:
  assumes "0 \<le> y1" "y1 < height g" "0 \<le> y2" "y2 < height g"
    and c1: "coordsAgree g x1 y1" and c2: "coordsAgree g x2 y2"
    and s: "swap g x1 y1 x2 y2 = Inr g1"
  shows "swap g1 x1 y1 x2 y2 = Inr g"
proof -
  have g1: "g1 = writeCell (writeCell g x1 y1 (map_option (\<lambda>t. t\<lparr>tileX := x1, tileY := y1\<rparr>) (grid g y2 x2)))
                   x2 y2 (map_option (\<lambda>t. t\<lparr>tileX := x2, tileY := y2\<rparr>) (grid g y1 x1))"
    using s assms(1-4) by (simp add: swap_def Let_def)
  have h: "height g1 = height g" by (simp add: g1 writeCell_def)
  have a: "map_option (\<lambda>t. t\<lparr>tileX := x2, tileY := y2\<rparr>) (grid g y1 x1) = 
           map_option (\<lambda>t. t\<lparr>tileX := x2, tileY := y2\<rparr>) (grid g y1 x1)" by simp
  have m1: "map_option (\<lambda>t. t\<lparr>tileX := x1, tileY := y1\<rparr>)
              (map_option (\<lambda>t. t\<lparr>tileX := x2, tileY := y2\<rparr>) (grid g y1 x1)) = grid g y1 x1"
    using c1 by (auto simp: coordsAgree_def split: option.splits)
  have m2: "map_option (\<lambda>t. t\<lparr>tileX := x2, tileY := y2\<rparr>)
              (map_option (\<lambda>t. t\<lparr>tileX := x1, tileY := y1\<rparr>) (grid g y2 x2)) = grid g y2 x2"
    using c2 by (auto simp: coordsAgree_def split: option.splits)
  have gr: "grid (writeCell (writeCell g1 x1 y1 (map_option (\<lambda>t. t\<lparr>tileX := x1, tileY := y1\<rparr>) (grid g1 y2 x2)))
                   x2 y2 (map_option (\<lambda>t. t\<lparr>tileX := x2, tileY := y2\<rparr>) (grid g1 y1 x1))) = grid g"
  proof (intro ext)
    fix y x
    show "grid (writeCell (writeCell g1 x1 y1 (map_option (\<lambda>t. t\<lparr>tileX := x1, tileY := y1\<rparr>) (grid g1 y2 x2)))
                   x2 y2 (map_option (\<lambda>t. t\<lparr>tileX := x2, tileY := y2\<rparr>) (grid g1 y1 x1))) y x = grid g y x"
      using m1 m2 coords_id[OF c1] coords_id[OF c2]
      by (cases "x1 = x2 \<and> y1 = y2") (auto simp: g1 writeCell_def)
  qed
  have "writeCell (writeCell g1 x1 y1 (map_option (\<lambda>t. t\<lparr>tileX := x1, tileY := y1\<rparr>) (grid g1 y2 x2)))
                   x2 y2 (map_option (\<lambda>t. t\<lparr>tileX := x2, tileY := y2\<rparr>) (grid g1 y1 x1)) = g"
    using gr by (simp add: writeCell_def g1)
  then show ?thesis using h assms(1-4) by (simp add: swap_def Let_def)
qed

text \<open>
  Every tile of a grid built by \<open>initialize\<close> carries the coordinates of its cell, and
  \<open>setTile\<close>, \<open>setEmpty\<close> and \<open>swap\<close> keep it so.
\<close>

definition coordsOK :: "error + grid_manager \<Rightarrow> bool" where
  "coordsOK r = (case r of Inl e \<Rightarrow> True | Inr g \<Rightarrow> (\<forall>x y. coordsAgree g x y))"

lemma coordsAgree_writeCell:
  "coordsAgree (writeCell g x y (Some t)) x' y' =
     (if x' = x \<and> y' = y then tileX t = x \<and> tileY t = y else coordsAgree g x' y')"
  by (simp add: coordsAgree_def grid_writeCell)

lemma assignCell_coordsOK:
  assumes "coordsOK r" "tileX t = x" "tileY t = y"
  shows "coordsOK (assignCell x y t r)"
  using assms by (cases r) (auto simp: coordsOK_def assignCell_def coordsAgree_writeCell)

lemma blockerTile_coords:
  "tileX (blockerTile b) = blockerX b \<and> tileY (blockerTile b) = blockerY b"
  by (auto simp: blockerTile_def newTile_def addIce_def lock_def Let_def split: option.splits)

lemma fillCell_coords:
  assumes "\<forall>x' y'. coordsAgree (fst st) x' y'"
  shows "\<forall>x' y'. coordsAgree (fst (fillCell tps y x st)) x' y'"
  using assms
  by (cases st)
     (auto simp: fillCell_def coordsAgree_writeCell createNonMatchingTile_def newTile_def
           split: option.splits)

lemma initialize_coordsAgree:
  assumes "initialize g0 cfg rnd = Inr (g, rnd', fallbacks)"
  shows "coordsAgree g x y"
proof -
  let ?bs = "case levelBlockers cfg of None \<Rightarrow> [] | Some l \<Rightarrow> l"
  let ?ep = "case levelExitPosition cfg of None \<Rightarrow> (width g0 div 2, 0) | Some p \<Rightarrow> p"
  let ?cs = "case levelCharacterStart cfg of None \<Rightarrow> (width g0 div 2, height g0 - 1) | Some p \<Rightarrow> p"
  let ?tps = "case levelTileTypes cfg of None \<Rightarrow> MATCHABLE_COLORS | Some l \<Rightarrow> l"
  let ?g1 = "g0\<lparr>tileTypes := Some ?tps, exitPosition := ?ep, characterPosition := Some ?cs,
                  grid := (\<lambda>y x. None)\<rparr>"
  let ?r2 = "fold (\<lambda>b. assignCell (blockerX b) (blockerY b) (blockerTile b)) ?bs (Inr ?g1)"
  let ?r3 = "assignCell (fst ?ep) (snd ?ep) (newTile EXIT (fst ?ep) (snd ?ep)) ?r2"
  let ?r4 = "assignCell (fst ?cs) (snd ?cs) (newTile EMPTY (fst ?cs) (snd ?cs)) ?r3"
  have p1: "coordsOK (Inr ?g1)" by (auto simp: coordsOK_def coordsAgree_def)
  have p2: "coordsOK ?r2"
    by (rule fold_list_inv[where P = coordsOK])
       (rule p1, rule assignCell_coordsOK, simp_all add: blockerTile_coords)
  have p4: "coordsOK ?r4"
    by (intro assignCell_coordsOK p2) (simp_all add: newTile_def)
  from assms obtain g4 where g4: "?r4 = Inr g4"
    and res: "(g, rnd', fallbacks) =
       fold (\<lambda>y. fold (fillCell ?tps y) [0..width g4 - 1]) [0..height g4 - 1] (g4, rnd, [])"
    unfolding initialize_def Let_def by (auto split: sum.splits)
  have c4: "\<forall>x' y'. coordsAgree (fst (g4, rnd, []::(int \<times> int) list)) x' y'"
    using p4 g4 by (simp add: coordsOK_def)
  have "\<forall>x' y'. coordsAgree
      (fst (fold (\<lambda>y. fold (fillCell ?tps y) [0..width g4 - 1]) [0..height g4 - 1] (g4, rnd, []))) x' y'"
  proof (rule fold_list_inv[where P = "\<lambda>t. \<forall>x' y'. coordsAgree (fst t) x' y'"])
    show "\<forall>x' y'. coordsAgree (fst (g4, rnd, []::(int \<times> int) list)) x' y'" by (rule c4)
  next
    fix k and t :: "grid_manager \<times> (nat \<Rightarrow> real) \<times> (int \<times> int) list"
    assume a: "\<forall>x' y'. coordsAgree (fst t) x' y'"
    show "\<forall>x' y'. coordsAgree (fst (fold (fillCell ?tps k) [0..width g4 - 1] t)) x' y'"
      by (rule fold_list_inv[where P = "\<lambda>t. \<forall>x' y'. coordsAgree (fst t) x' y'"])
         (rule a, rule fillCell_coords)
  qed
  then show ?thesis using res by (metis fst_conv)
qed

lemma setTile_coordsAgree:
  "coordsAgree g x' y' \<Longrightarrow> coordsAgree (setTile g x y t) x' y'"
  by (auto simp: setTile_def coordsAgree_def grid_writeCell)

lemma swap_coordsAgree:
  assumes "swap g x1 y1 x2 y2 = Inr g1" "coordsAgree g x y"
  shows "coordsAgree g1 x y"
  using assms
  by (auto simp: swap_def Let_def coordsAgree_def grid_writeCell split: if_splits option.splits)

section \<open>The scan misses no run\<close>

text \<open>
  \<open>hTriple g i y\<close>: the cells \<open>(i, y)\<close>, \<open>(i + 1, y)\<close>, \<open>(i + 2, y)\<close> hold matchable tiles of
  one type; \<open>hCovered out i y\<close>: one horizontal record of \<open>out\<close> lists the three cells.
  \<open>hScanFull\<close> is the invariant of the row scan before it reads column \<open>n\<close>: the current
  run starts at \<open>matchStart\<close>, cannot be extended to the left, and every triple that ends
  before \<open>matchStart\<close> is covered. Columns are scanned the same way.
\<close>

definition hTriple :: "grid_manager \<Rightarrow> int \<Rightarrow> int \<Rightarrow> bool" where
  "hTriple g i y =
     (\<exists>c. matchableType g i y = Some c \<and> matchableType g (i + 1) y = Some c \<and>
          matchableType g (i + 2) y = Some c)"

definition vTriple :: "grid_manager \<Rightarrow> int \<Rightarrow> int \<Rightarrow> bool" where
  "vTriple g x j =
     (\<exists>c. matchableType g x j = Some c \<and> matchableType g x (j + 1) = Some c \<and>
          matchableType g x (j + 2) = Some c)"

definition hCovered :: "tile_match list \<Rightarrow> int \<Rightarrow> int \<Rightarrow> bool" where
  "hCovered out i y =
     (\<exists>m \<in> set out. matchType m = Horizontal \<and>
        (i, y) \<in> set (tiles m) \<and> (i + 1, y) \<in> set (tiles m) \<and> (i + 2, y) \<in> set (tiles m))"

definition vCovered :: "tile_match list \<Rightarrow> int \<Rightarrow> int \<Rightarrow> bool" where
  "vCovered out x j =
     (\<exists>m \<in> set out. matchType m = Vertical \<and>
        (x, j) \<in> set (tiles m) \<and> (x, j + 1) \<in> set (tiles m) \<and> (x, j + 2) \<in> set (tiles m))"

definition hScanFull ::
  "grid_manager \<Rightarrow> int \<Rightarrow> int \<Rightarrow> int \<times> tile_type option \<times> tile_match list \<Rightarrow> bool" where
  "hScanFull g y n st =
     (case st of (ms, ct, out) \<Rightarrow>
        ms \<le> n \<and>
        (if n = 0 then ct = None else ct = matchableType g (n - 1) y) \<and>
        (case ct of
           None \<Rightarrow> n = 0 \<or> ms = n - 1
         | Some c \<Rightarrow> (\<forall>i. ms \<le> i \<and> i < n \<longrightarrow> matchableType g i y = Some c) \<and>
                     matchableType g (ms - 1) y \<noteq> Some c) \<and>
        (\<forall>i. i + 2 < ms \<and> hTriple g i y \<longrightarrow> hCovered out i y))"

lemma hScanStep_full:
  assumes inv: "hScanFull g y k st" and k: "0 \<le> k"
  shows "hScanFull g y (k + 1) (hScanStep g y k st)"
proof -
  obtain ms ct out where st: "st = (ms, ct, out)" by (cases st) auto
  have a: "ms \<le> k" and b: "if k = 0 then ct = None else ct = matchableType g (k - 1) y"
    and d: "\<And>i. i + 2 < ms \<Longrightarrow> hTriple g i y \<Longrightarrow> hCovered out i y"
    using inv st by (auto simp: hScanFull_def)
  show ?thesis
  proof (cases "matchableType g k y = ct \<and> ct \<noteq> None")
    case True
    then obtain c where c: "ct = Some c" "matchableType g k y = Some c" by auto
    have run: "\<forall>i. ms \<le> i \<and> i < k \<longrightarrow> matchableType g i y = Some c"
      and bd: "matchableType g (ms - 1) y \<noteq> Some c"
      using inv st c by (auto simp: hScanFull_def)
    have run': "\<forall>i. ms \<le> i \<and> i < k + 1 \<longrightarrow> matchableType g i y = Some c"
    proof (intro allI impI)
      fix i assume "ms \<le> i \<and> i < k + 1"
      then consider "i < k" "ms \<le> i" | "i = k" by linarith
      then show "matchableType g i y = Some c" using run c by cases auto
    qed
    have r: "hScanStep g y k (ms, ct, out) = (ms, ct, out)" using True by (simp add: hScanStep_def)
    show ?thesis unfolding st r hScanFull_def prod.case
      using a c run' bd d k by auto
  next
    case False
    define out' where "out' = (case ct of None \<Rightarrow> out
         | Some c \<Rightarrow> if k - ms \<ge> MIN_MATCH then
             out @ [\<lparr>tiles = map (\<lambda>mx. (mx, y)) [ms..k - 1], matchType = Horizontal,
                      matchLength = k - ms, color = c\<rparr>] else out)"
    have r: "hScanStep g y k (ms, ct, out) = (k, matchableType g k y, out')"
      using False by (auto simp: hScanStep_def Let_def out'_def)
    have mono: "\<And>i. hCovered out i y \<Longrightarrow> hCovered out' i y"
      unfolding out'_def by (auto simp: hCovered_def split: option.splits)
    have d': "\<forall>i. i + 2 < k \<and> hTriple g i y \<longrightarrow> hCovered out' i y"
    proof (intro allI impI)
      fix i assume h: "i + 2 < k \<and> hTriple g i y"
      then obtain c where tc: "matchableType g i y = Some c" "matchableType g (i + 1) y = Some c"
        "matchableType g (i + 2) y = Some c" unfolding hTriple_def by blast
      show "hCovered out' i y"
      proof (cases "i + 2 < ms")
        case True
        then show ?thesis using d h mono by blast
      next
        case nb: False
        then have in_run: "ms \<le> i + 2" "i + 2 < k" using h by auto
        show ?thesis
        proof (cases ct)
          case None
          have "0 \<le> i + 2" using matchableType_valid[OF tc(3)] by (simp add: isValidPosition_def)
          then have "k \<noteq> 0" using in_run by auto
          then have "ms = k - 1" and mt: "matchableType g (k - 1) y = None"
            using inv st None b by (auto simp: hScanFull_def)
          then have e: "k - 1 = i + 2" using in_run by auto
          show ?thesis using tc(3) mt[unfolded e] by simp
        next
          case (Some c')
          have run: "\<forall>j. ms \<le> j \<and> j < k \<longrightarrow> matchableType g j y = Some c'"
            and bd: "matchableType g (ms - 1) y \<noteq> Some c'"
            using inv st Some by (auto simp: hScanFull_def)
          have cc: "c' = c" using run in_run tc(3) by auto
          have lo: "ms \<le> i"
          proof (rule ccontr)
            assume "\<not> ms \<le> i"
            then consider (p) "ms - 1 = i" | (q) "ms - 1 = i + 1" using in_run by linarith
            then show False
            proof cases
              case p
              show False using bd[unfolded p] tc(1) cc by simp
            next
              case q
              show False using bd[unfolded q] tc(2) cc by simp
            qed
          qed
          then have len: "k - ms \<ge> MIN_MATCH" using in_run by (simp add: MIN_MATCH_def)
          have o: "out' = out @ [\<lparr>tiles = map (\<lambda>mx. (mx, y)) [ms..k - 1], matchType = Horizontal,
                      matchLength = k - ms, color = c'\<rparr>]"
            using Some len by (simp add: out'_def)
          show ?thesis unfolding o hCovered_def using lo in_run by auto
        qed
      qed
    qed
    have e': "case matchableType g k y of None \<Rightarrow> k + 1 = 0 \<or> k = k + 1 - 1
         | Some c \<Rightarrow> (\<forall>i. k \<le> i \<and> i < k + 1 \<longrightarrow> matchableType g i y = Some c) \<and>
                     matchableType g (k - 1) y \<noteq> Some c"
    proof (cases "matchableType g k y")
      case None
      then show ?thesis by simp
    next
      case (Some c)
      have "matchableType g (k - 1) y \<noteq> Some c"
      proof (cases "k = 0")
        case True
        then show ?thesis by (simp add: matchableType_def getTile_def isValidPosition_def)
      next
        case kn: False
        then have "ct = matchableType g (k - 1) y" using b by simp
        then show ?thesis using False Some by auto
      qed
      moreover have "\<forall>i. k \<le> i \<and> i < k + 1 \<longrightarrow> matchableType g i y = Some c"
      proof (intro allI impI)
        fix i assume "k \<le> i \<and> i < k + 1"
        then have "i = k" by linarith
        then show "matchableType g i y = Some c" using Some by simp
      qed
      ultimately show ?thesis using Some by simp
    qed
    have b': "if k + 1 = 0 then matchableType g k y = None
              else matchableType g k y = matchableType g (k + 1 - 1) y"
      using k by simp
    show ?thesis unfolding st r hScanFull_def prod.case
      apply (intro conjI)
         apply simp
        apply (rule b')
       apply (rule e')
      apply (rule d')
      done
  qed
qed

definition vScanFull ::
  "grid_manager \<Rightarrow> int \<Rightarrow> int \<Rightarrow> int \<times> tile_type option \<times> tile_match list \<Rightarrow> bool" where
  "vScanFull g x n st =
     (case st of (ms, ct, out) \<Rightarrow>
        ms \<le> n \<and>
        (if n = 0 then ct = None else ct = matchableType g x (n - 1)) \<and>
        (case ct of
           None \<Rightarrow> n = 0 \<or> ms = n - 1
         | Some c \<Rightarrow> (\<forall>i. ms \<le> i \<and> i < n \<longrightarrow> matchableType g x i = Some c) \<and>
                     matchableType g x (ms - 1) \<noteq> Some c) \<and>
        (\<forall>i. i + 2 < ms \<and> vTriple g x i \<longrightarrow> vCovered out x i))"

lemma vScanStep_full:
  assumes inv: "vScanFull g x k st" and k: "0 \<le> k"
  shows "vScanFull g x (k + 1) (vScanStep g x k st)"
proof -
  obtain ms ct out where st: "st = (ms, ct, out)" by (cases st) auto
  have a: "ms \<le> k" and b: "if k = 0 then ct = None else ct = matchableType g x (k - 1)"
    and d: "\<And>i. i + 2 < ms \<Longrightarrow> vTriple g x i \<Longrightarrow> vCovered out x i"
    using inv st by (auto simp: vScanFull_def)
  show ?thesis
  proof (cases "matchableType g x k = ct \<and> ct \<noteq> None")
    case True
    then obtain c where c: "ct = Some c" "matchableType g x k = Some c" by auto
    have run: "\<forall>i. ms \<le> i \<and> i < k \<longrightarrow> matchableType g x i = Some c"
      and bd: "matchableType g x (ms - 1) \<noteq> Some c"
      using inv st c by (auto simp: vScanFull_def)
    have run': "\<forall>i. ms \<le> i \<and> i < k + 1 \<longrightarrow> matchableType g x i = Some c"
    proof (intro allI impI)
      fix i assume "ms \<le> i \<and> i < k + 1"
      then consider "i < k" "ms \<le> i" | "i = k" by linarith
      then show "matchableType g x i = Some c" using run c by cases auto
    qed
    have r: "vScanStep g x k (ms, ct, out) = (ms, ct, out)" using True by (simp add: vScanStep_def)
    show ?thesis unfolding st r vScanFull_def prod.case
      using a c run' bd d k by auto
  next
    case False
    define out' where "out' = (case ct of None \<Rightarrow> out
         | Some c \<Rightarrow> if k - ms \<ge> MIN_MATCH then
             out @ [\<lparr>tiles = map (\<lambda>my. (x, my)) [ms..k - 1], matchType = Vertical,
                      matchLength = k - ms, color = c\<rparr>] else out)"
    have r: "vScanStep g x k (ms, ct, out) = (k, matchableType g x k, out')"
      using False by (auto simp: vScanStep_def Let_def out'_def)
    have mono: "\<And>i. vCovered out x i \<Longrightarrow> vCovered out' x i"
      unfolding out'_def by (auto simp: vCovered_def split: option.splits)
    have d': "\<forall>i. i + 2 < k \<and> vTriple g x i \<longrightarrow> vCovered out' x i"
    proof (intro allI impI)
      fix i assume h: "i + 2 < k \<and> vTriple g x i"
      then obtain c where tc: "matchableType g x i = Some c" "matchableType g x (i + 1) = Some c"
        "matchableType g x (i + 2) = Some c" unfolding vTriple_def by blast
      show "vCovered out' x i"
      proof (cases "i + 2 < ms")
        case True
        then show ?thesis using d h mono by blast
      next
        case nb: False
        then have in_run: "ms \<le> i + 2" "i + 2 < k" using h by auto
        show ?thesis
        proof (cases ct)
          case None
          have "0 \<le> i + 2" using matchableType_valid[OF tc(3)] by (simp add: isValidPosition_def)
          then have "k \<noteq> 0" using in_run by auto
          then have "ms = k - 1" and mt: "matchableType g x (k - 1) = None"
            using inv st None b by (auto simp: vScanFull_def)
          then have e: "k - 1 = i + 2" using in_run by auto
          show ?thesis using tc(3) mt[unfolded e] by simp
        next
          case (Some c')
          have run: "\<forall>j. ms \<le> j \<and> j < k \<longrightarrow> matchableType g x j = Some c'"
            and bd: "matchableType g x (ms - 1) \<noteq> Some c'"
            using inv st Some by (auto simp: vScanFull_def)
          have cc: "c' = c" using run in_run tc(3) by auto
          have lo: "ms \<le> i"
          proof (rule ccontr)
            assume "\<not> ms \<le> i"
            then consider (p) "ms - 1 = i" | (q) "ms - 1 = i + 1" using in_run by linarith
            then show False
            proof cases
              case p
              show False using bd[unfolded p] tc(1) cc by simp
            next
              case q
              show False using bd[unfolded q] tc(2) cc by simp
            qed
          qed
          then have len: "k - ms \<ge> MIN_MATCH" using in_run by (simp add: MIN_MATCH_def)
          have o: "out' = out @ [\<lparr>tiles = map (\<lambda>my. (x, my)) [ms..k - 1], matchType = Vertical,
                      matchLength = k - ms, color = c'\<rparr>]"
            using Some len by (simp add: out'_def)
          show ?thesis unfolding o vCovered_def using lo in_run by auto
        qed
      qed
    qed
    have e': "case matchableType g x k of None \<Rightarrow> k + 1 = 0 \<or> k = k + 1 - 1
         | Some c \<Rightarrow> (\<forall>i. k \<le> i \<and> i < k + 1 \<longrightarrow> matchableType g x i = Some c) \<and>
                     matchableType g x (k - 1) \<noteq> Some c"
    proof (cases "matchableType g x k")
      case None
      then show ?thesis by simp
    next
      case (Some c)
      have "matchableType g x (k - 1) \<noteq> Some c"
      proof (cases "k = 0")
        case True
        then show ?thesis by (simp add: matchableType_def getTile_def isValidPosition_def)
      next
        case kn: False
        then have "ct = matchableType g x (k - 1)" using b by simp
        then show ?thesis using False Some by auto
      qed
      moreover have "\<forall>i. k \<le> i \<and> i < k + 1 \<longrightarrow> matchableType g x i = Some c"
      proof (intro allI impI)
        fix i assume "k \<le> i \<and> i < k + 1"
        then have "i = k" by linarith
        then show "matchableType g x i = Some c" using Some by simp
      qed
      ultimately show ?thesis using Some by simp
    qed
    have b': "if k + 1 = 0 then matchableType g x k = None
              else matchableType g x k = matchableType g x (k + 1 - 1)"
      using k by simp
    show ?thesis unfolding st r vScanFull_def prod.case
      apply (intro conjI)
         apply simp
        apply (rule b')
       apply (rule e')
      apply (rule d')
      done
  qed
qed


lemma hScanStep_grows: "set (snd (snd st)) \<subseteq> set (snd (snd (hScanStep g y k st)))"
  by (cases st) (auto simp: hScanStep_def Let_def split: option.splits)

lemma vScanStep_grows: "set (snd (snd st)) \<subseteq> set (snd (snd (vScanStep g x k st)))"
  by (cases st) (auto simp: vScanStep_def Let_def split: option.splits)

lemma hScanRow_grows: "set ms \<subseteq> set (hScanRow g y ms)"
proof -
  have "set ms \<subseteq> set (snd (snd (fold (hScanStep g y) [0..width g] (0, None, ms))))"
  proof (rule fold_list_inv[where P = "\<lambda>st. set ms \<subseteq> set (snd (snd st))"])
    show "set ms \<subseteq> set (snd (snd (0::int, None::tile_type option, ms)))" by simp
  next
    fix k and t :: "int \<times> tile_type option \<times> tile_match list"
    assume "set ms \<subseteq> set (snd (snd t))"
    then show "set ms \<subseteq> set (snd (snd (hScanStep g y k t)))"
      using hScanStep_grows[of t g y k] by blast
  qed
  then show ?thesis by (simp add: hScanRow_def)
qed

lemma vScanColumn_grows: "set ms \<subseteq> set (vScanColumn g x ms)"
proof -
  have "set ms \<subseteq> set (snd (snd (fold (vScanStep g x) [0..height g] (0, None, ms))))"
  proof (rule fold_list_inv[where P = "\<lambda>st. set ms \<subseteq> set (snd (snd st))"])
    show "set ms \<subseteq> set (snd (snd (0::int, None::tile_type option, ms)))" by simp
  next
    fix k and t :: "int \<times> tile_type option \<times> tile_match list"
    assume "set ms \<subseteq> set (snd (snd t))"
    then show "set ms \<subseteq> set (snd (snd (vScanStep g x k t)))"
      using vScanStep_grows[of t g x k] by blast
  qed
  then show ?thesis by (simp add: vScanColumn_def)
qed

lemma hCovered_subset: "hCovered out i y \<Longrightarrow> set out \<subseteq> set out' \<Longrightarrow> hCovered out' i y"
  unfolding hCovered_def by blast

lemma vCovered_subset: "vCovered out x j \<Longrightarrow> set out \<subseteq> set out' \<Longrightarrow> vCovered out' x j"
  unfolding vCovered_def by blast

lemma hTriple_valid:
  assumes "hTriple g i y"
  shows "0 \<le> i \<and> i + 2 < width g \<and> 0 \<le> y \<and> y < height g"
proof -
  obtain c where "matchableType g i y = Some c" "matchableType g (i + 2) y = Some c"
    using assms unfolding hTriple_def by blast
  then show ?thesis
    using matchableType_valid[of g i y c] matchableType_valid[of g "i + 2" y c]
    by (simp add: isValidPosition_def)
qed

lemma vTriple_valid:
  assumes "vTriple g x j"
  shows "0 \<le> j \<and> j + 2 < height g \<and> 0 \<le> x \<and> x < width g"
proof -
  obtain c where "matchableType g x j = Some c" "matchableType g x (j + 2) = Some c"
    using assms unfolding vTriple_def by blast
  then show ?thesis
    using matchableType_valid[of g x j c] matchableType_valid[of g x "j + 2" c]
    by (simp add: isValidPosition_def)
qed

lemma matchableType_outside_row: "matchableType g (width g) y = None"
  by (simp add: matchableType_def getTile_def isValidPosition_def)

lemma matchableType_outside_column: "matchableType g x (height g) = None"
  by (simp add: matchableType_def getTile_def isValidPosition_def)

lemma hScanRow_full:
  assumes t: "hTriple g i y"
  shows "hCovered (hScanRow g y ms0) i y"
proof -
  have v: "0 \<le> i" "i + 2 < width g" using hTriple_valid[OF t] by auto
  define st where "st = fold (hScanStep g y) [0..width g] (0, None, ms0)"
  have init: "hScanFull g y 0 (0, None, ms0)"
    unfolding hScanFull_def prod.case using hTriple_valid[of g _ y] by fastforce
  have fin: "hScanFull g y (width g + 1) st" unfolding st_def
    by (rule fold_upto_inv[where P = "hScanFull g y"])
       (use init v in \<open>auto intro: hScanStep_full\<close>)
  obtain ms ct out where s: "st = (ms, ct, out)" by (cases st) auto
  have "ct = None" using fin v unfolding s hScanFull_def prod.case
    by (simp add: matchableType_outside_row)
  then have "ms = width g" using fin v unfolding s hScanFull_def prod.case by auto
  then have "hCovered out i y" using fin v t unfolding s hScanFull_def prod.case by blast
  then show ?thesis by (simp add: hScanRow_def st_def[symmetric] s)
qed

lemma vScanColumn_full:
  assumes t: "vTriple g x j"
  shows "vCovered (vScanColumn g x ms0) x j"
proof -
  have v: "0 \<le> j" "j + 2 < height g" using vTriple_valid[OF t] by auto
  define st where "st = fold (vScanStep g x) [0..height g] (0, None, ms0)"
  have init: "vScanFull g x 0 (0, None, ms0)"
    unfolding vScanFull_def prod.case using vTriple_valid[of g x] by fastforce
  have fin: "vScanFull g x (height g + 1) st" unfolding st_def
    by (rule fold_upto_inv[where P = "vScanFull g x"])
       (use init v in \<open>auto intro: vScanStep_full\<close>)
  obtain ms ct out where s: "st = (ms, ct, out)" by (cases st) auto
  have "ct = None" using fin v unfolding s vScanFull_def prod.case
    by (simp add: matchableType_outside_column)
  then have "ms = height g" using fin v unfolding s vScanFull_def prod.case by auto
  then have "vCovered out x j" using fin v t unfolding s vScanFull_def prod.case by blast
  then show ?thesis by (simp add: vScanColumn_def st_def[symmetric] s)
qed

lemma fold_reaches:
  assumes "c \<in> set cs" and est: "\<And>st. Q (f c st)" and pres: "\<And>c' st. Q st \<Longrightarrow> Q (f c' st)"
  shows "Q (fold f cs st)"
  using assms(1)
proof (induction cs arbitrary: st rule: rev_induct)
  case Nil
  then show ?case by simp
next
  case (snoc a cs)
  show ?case
  proof (cases "a = c")
    case True
    then show ?thesis using est by simp
  next
    case False
    then have "c \<in> set cs" using snoc.prems by simp
    then show ?thesis using snoc.IH pres by simp
  qed
qed

lemma findAllMatches_horizontal_full:
  assumes t: "hTriple g i y"
  shows "hCovered (findAllMatches g) i y"
proof -
  have y: "y \<in> set [0..height g - 1]" using hTriple_valid[OF t] by simp
  have h: "hCovered (fold (hScanRow g) [0..height g - 1] []) i y"
    by (rule fold_reaches[where Q = "\<lambda>out. hCovered out i y", OF y])
       (auto intro: hScanRow_full[OF t] hCovered_subset[OF _ hScanRow_grows])
  show ?thesis unfolding findAllMatches_def
    by (rule fold_list_inv[where P = "\<lambda>out. hCovered out i y"])
       (auto intro: h hCovered_subset[OF _ vScanColumn_grows])
qed

lemma findAllMatches_vertical_full:
  assumes t: "vTriple g x j"
  shows "vCovered (findAllMatches g) x j"
proof -
  have x: "x \<in> set [0..width g - 1]" using vTriple_valid[OF t] by simp
  show ?thesis unfolding findAllMatches_def
    by (rule fold_reaches[where Q = "\<lambda>out. vCovered out x j", OF x])
       (auto intro: vScanColumn_full[OF t] vCovered_subset[OF _ vScanColumn_grows])
qed

lemma matchableType_unlocked:
  assumes "getTile g x y = Some a" "tileType a \<in> set MATCHABLE_COLORS" "\<not> isLocked a"
  shows "matchableType g x y = Some (tileType a)"
  using assms by (simp add: matchableType_def isMatchable_def)

section \<open>Spawning: the cells, the draw and the candidate colours\<close>























section \<open>The claims\<close>

text \<open>
  Claim C1. After a productive swap has consumed a move, the cascade and the character's
  advance run to their end and only then the terminal conditions are looked at: Win when
  the character has escaped, otherwise Lose when no move remains, otherwise Idle; a budget
  that the move just consumed brings to zero never produces Lose before the cascade, the
  advance and the escape check. The code does not do this: \<open>useMove\<close> itself calls
  \<open>triggerLose\<close> when the counter reaches zero, before \<open>processCascades\<close> starts. On
  \<open>lastMoveGame\<close> (one move left, the character right under the exit) the swap of (2, 2)
  with (2, 3) completes a red row: \<open>onLose\<close> is called first, the character then escapes
  and \<open>onWin\<close> is called as well, and the state that \<open>handleSwap\<close> leaves is \<open>IDLE\<close>.
\<close>

theorem C1_last_move_loses_first:
  "useMove (levelManager lastMoveGame) =
     (\<lparr>currentLevelIndex = 0, movesRemaining = 0, maxMoves = 1, gameState = LOSE,
       callbackLog = [MovesChanged 0 1, LoseEvent 1]\<rparr>, False) \<and>
   (case handleSwap 5 lastMoveGame 2 2 2 3 of
      Inl e \<Rightarrow> None
    | Inr s \<Rightarrow> Some (callbackLog (levelManager s), gameState (levelManager s),
                     hasEscaped (characterController s))) =
     Some ([MovesChanged 0 1, LoseEvent 1, WinEvent 1 1 0], IDLE, True)"
  by code_simp

text \<open>
  Claim C2. A swap of two adjacent cells in bounds after which neither swapped cell lies
  in a run of three or more is undone and costs no move: \<open>handleSwap\<close> returns with the
  grid it started from, cell by cell, and with \<open>movesRemaining\<close> unchanged (no callback
  is called and the character does not move either). The two tiles carry the coordinates
  of their cells, as every tile of a grid built by \<open>initialize\<close>, \<open>setTile\<close> and \<open>swap\<close> does.
\<close>

theorem C2_invalid_swap_conserves:
  assumes v1: "isValidPosition (gridManager s) x1 y1" and v2: "isValidPosition (gridManager s) x2 y2"
    and adj: "areAdjacent x1 y1 x2 y2"
    and c1: "coordsAgree (gridManager s) x1 y1" and c2: "coordsAgree (gridManager s) x2 y2"
    and nomatch: "case swap (gridManager s) x1 y1 x2 y2 of
                    Inl e \<Rightarrow> False
                  | Inr g1 \<Rightarrow> \<not> checkSwapForMatches g1 x1 y1 x2 y2"
  shows "\<exists>s'. handleSwap fuel s x1 y1 x2 y2 = Inr s' \<and>
               gridManager s' = gridManager s \<and>
               movesRemaining (levelManager s') = movesRemaining (levelManager s) \<and>
               callbackLog (levelManager s') = callbackLog (levelManager s) \<and>
               characterController s' = characterController s"
proof (cases "isProcessing s \<or> isGameOver (levelManager s)")
  case True
  then show ?thesis by (simp add: handleSwap_def)
next
  case False
  from nomatch obtain g1 where g1: "swap (gridManager s) x1 y1 x2 y2 = Inr g1"
    and nm: "\<not> checkSwapForMatches g1 x1 y1 x2 y2"
    by (auto split: sum.splits)
  have rows: "0 \<le> y1" "y1 < height (gridManager s)" "0 \<le> y2" "y2 < height (gridManager s)"
    using v1 v2 by (auto simp: isValidPosition_def)
  have undo: "swap g1 x1 y1 x2 y2 = Inr (gridManager s)"
    by (rule swap_swap[OF rows c1 c2 g1])
  show ?thesis using False g1 nm undo
    by (simp add: handleSwap_def Let_def finishSwap_def setState_def)
qed

theorem C2_invalid_swap_conserves_witness:
  "isValidPosition (gridManager lastMoveGame) 0 0 \<and> isValidPosition (gridManager lastMoveGame) 0 1 \<and>
   areAdjacent 0 0 0 1 \<and>
   coordsAgree (gridManager lastMoveGame) 0 0 \<and> coordsAgree (gridManager lastMoveGame) 0 1 \<and>
   (\<exists>s'. handleSwap 5 lastMoveGame 0 0 0 1 = Inr s' \<and>
               gridManager s' = gridManager lastMoveGame \<and>
               movesRemaining (levelManager s') = 1)"
proof -
  have v1: "isValidPosition (gridManager lastMoveGame) 0 0" by code_simp
  have v2: "isValidPosition (gridManager lastMoveGame) 0 1" by code_simp
  have adj: "areAdjacent 0 0 0 1" by code_simp
  have c1: "coordsAgree (gridManager lastMoveGame) 0 0" by code_simp
  have c2: "coordsAgree (gridManager lastMoveGame) 0 1" by code_simp
  have nm: "case swap (gridManager lastMoveGame) 0 0 0 1 of
                    Inl e \<Rightarrow> False
                  | Inr g1 \<Rightarrow> \<not> checkSwapForMatches g1 0 0 0 1" by code_simp
  have mr: "movesRemaining (levelManager lastMoveGame) = 1" by code_simp
  from C2_invalid_swap_conserves[OF v1 v2 adj c1 c2 nm, of 5] mr
  have "\<exists>s'. handleSwap 5 lastMoveGame 0 0 0 1 = Inr s' \<and>
               gridManager s' = gridManager lastMoveGame \<and>
               movesRemaining (levelManager s') = 1" by auto
  then show ?thesis using v1 v2 adj c1 c2 by blast
qed

text \<open>
  Claim C3, as amended. A locked tile is never matchable, whatever its colour: \<open>canSwap\<close>
  refuses it and every cell of every match that \<open>findAllMatches\<close> reports holds an unlocked
  matchable tile. The ice count plays no part: \<open>isMatchable\<close> and \<open>canSwap\<close> answer the
  same for a tile under any number of ice layers, so an unlocked tile of a matchable colour
  is matchable, and swappable when it is not falling; and iced tiles take part in detected
  runs: whenever three consecutive cells of a row, or of a column, hold unlocked tiles of
  one matchable colour (iced or not, the ice count is not asked for), one match that
  \<open>findAllMatches\<close> reports lists the three cells.
\<close>

theorem C3_locked_tile_never_matchable:
  "(isLocked t \<longrightarrow> \<not> isMatchable t \<and> \<not> canSwap t) \<and>
   (\<forall>m \<in> set (findAllMatches g). \<forall>p \<in> set (tiles m).
      \<exists>u. getTile g (fst p) (snd p) = Some u \<and> isMatchable u \<and> \<not> isLocked u) \<and>
   isMatchable (t\<lparr>iceLayer := n\<rparr>) = isMatchable t \<and>
   canSwap (t\<lparr>iceLayer := n\<rparr>) = canSwap t \<and>
   (tileType t \<in> set MATCHABLE_COLORS \<and> \<not> isLocked t \<longrightarrow>
      isMatchable t \<and> canSwap t = (\<not> isFalling t)) \<and>
   (\<forall>x y a b c.
      getTile g x y = Some a \<and> getTile g (x + 1) y = Some b \<and> getTile g (x + 2) y = Some c \<and>
      tileType a \<in> set MATCHABLE_COLORS \<and> tileType b = tileType a \<and> tileType c = tileType a \<and>
      \<not> isLocked a \<and> \<not> isLocked b \<and> \<not> isLocked c \<longrightarrow>
      (\<exists>m \<in> set (findAllMatches g). matchType m = Horizontal \<and>
         (x, y) \<in> set (tiles m) \<and> (x + 1, y) \<in> set (tiles m) \<and> (x + 2, y) \<in> set (tiles m))) \<and>
   (\<forall>x y a b c.
      getTile g x y = Some a \<and> getTile g x (y + 1) = Some b \<and> getTile g x (y + 2) = Some c \<and>
      tileType a \<in> set MATCHABLE_COLORS \<and> tileType b = tileType a \<and> tileType c = tileType a \<and>
      \<not> isLocked a \<and> \<not> isLocked b \<and> \<not> isLocked c \<longrightarrow>
      (\<exists>m \<in> set (findAllMatches g). matchType m = Vertical \<and>
         (x, y) \<in> set (tiles m) \<and> (x, y + 1) \<in> set (tiles m) \<and> (x, y + 2) \<in> set (tiles m)))"
proof -
  have cells: "\<forall>m \<in> set (findAllMatches g). \<forall>p \<in> set (tiles m).
      \<exists>u. getTile g (fst p) (snd p) = Some u \<and> isMatchable u \<and> \<not> isLocked u"
    using findAllMatches_cells[of g] by blast
  have hor: "\<forall>x y a b c.
      getTile g x y = Some a \<and> getTile g (x + 1) y = Some b \<and> getTile g (x + 2) y = Some c \<and>
      tileType a \<in> set MATCHABLE_COLORS \<and> tileType b = tileType a \<and> tileType c = tileType a \<and>
      \<not> isLocked a \<and> \<not> isLocked b \<and> \<not> isLocked c \<longrightarrow>
      (\<exists>m \<in> set (findAllMatches g). matchType m = Horizontal \<and>
         (x, y) \<in> set (tiles m) \<and> (x + 1, y) \<in> set (tiles m) \<and> (x + 2, y) \<in> set (tiles m))"
  proof (intro allI impI)
    fix x y a b c
    assume h: "getTile g x y = Some a \<and> getTile g (x + 1) y = Some b \<and> getTile g (x + 2) y = Some c \<and>
      tileType a \<in> set MATCHABLE_COLORS \<and> tileType b = tileType a \<and> tileType c = tileType a \<and>
      \<not> isLocked a \<and> \<not> isLocked b \<and> \<not> isLocked c"
    have "matchableType g x y = Some (tileType a)"
      "matchableType g (x + 1) y = Some (tileType a)"
      "matchableType g (x + 2) y = Some (tileType a)"
      using h matchableType_unlocked[of g x y a] matchableType_unlocked[of g "x + 1" y b]
        matchableType_unlocked[of g "x + 2" y c] by auto
    then have "hTriple g x y" unfolding hTriple_def by blast
    then have "hCovered (findAllMatches g) x y" by (rule findAllMatches_horizontal_full)
    then show "\<exists>m \<in> set (findAllMatches g). matchType m = Horizontal \<and>
         (x, y) \<in> set (tiles m) \<and> (x + 1, y) \<in> set (tiles m) \<and> (x + 2, y) \<in> set (tiles m)"
      unfolding hCovered_def .
  qed
  have ver: "\<forall>x y a b c.
      getTile g x y = Some a \<and> getTile g x (y + 1) = Some b \<and> getTile g x (y + 2) = Some c \<and>
      tileType a \<in> set MATCHABLE_COLORS \<and> tileType b = tileType a \<and> tileType c = tileType a \<and>
      \<not> isLocked a \<and> \<not> isLocked b \<and> \<not> isLocked c \<longrightarrow>
      (\<exists>m \<in> set (findAllMatches g). matchType m = Vertical \<and>
         (x, y) \<in> set (tiles m) \<and> (x, y + 1) \<in> set (tiles m) \<and> (x, y + 2) \<in> set (tiles m))"
  proof (intro allI impI)
    fix x y a b c
    assume h: "getTile g x y = Some a \<and> getTile g x (y + 1) = Some b \<and> getTile g x (y + 2) = Some c \<and>
      tileType a \<in> set MATCHABLE_COLORS \<and> tileType b = tileType a \<and> tileType c = tileType a \<and>
      \<not> isLocked a \<and> \<not> isLocked b \<and> \<not> isLocked c"
    have "matchableType g x y = Some (tileType a)"
      "matchableType g x (y + 1) = Some (tileType a)"
      "matchableType g x (y + 2) = Some (tileType a)"
      using h matchableType_unlocked[of g x y a] matchableType_unlocked[of g x "y + 1" b]
        matchableType_unlocked[of g x "y + 2" c] by auto
    then have "vTriple g x y" unfolding vTriple_def by blast
    then have "vCovered (findAllMatches g) x y" by (rule findAllMatches_vertical_full)
    then show "\<exists>m \<in> set (findAllMatches g). matchType m = Vertical \<and>
         (x, y) \<in> set (tiles m) \<and> (x, y + 1) \<in> set (tiles m) \<and> (x, y + 2) \<in> set (tiles m)"
      unfolding vCovered_def .
  qed
  have tile: "(isLocked t \<longrightarrow> \<not> isMatchable t \<and> \<not> canSwap t) \<and>
     isMatchable (t\<lparr>iceLayer := n\<rparr>) = isMatchable t \<and> canSwap (t\<lparr>iceLayer := n\<rparr>) = canSwap t \<and>
     (tileType t \<in> set MATCHABLE_COLORS \<and> \<not> isLocked t \<longrightarrow>
        isMatchable t \<and> canSwap t = (\<not> isFalling t))"
    by (simp add: isMatchable_def canSwap_def)
  show ?thesis using tile cells hor ver by blast
qed

theorem C3_locked_tile_never_matchable_witness:
  "isLocked (lock (newTile RED 0 0)) \<and> \<not> isMatchable (lock (newTile RED 0 0)) \<and>
   \<not> canSwap (lock (newTile RED 0 0)) \<and>
   fourMatch \<in> set (findAllMatches fourBoard) \<and> (2, 0) \<in> set (tiles fourMatch) \<and>
   (\<exists>u. getTile fourBoard 2 0 = Some u \<and> isMatchable u \<and> \<not> isLocked u) \<and>
   getTile (icedBoard 2) 0 0 = Some (addIce 2 (newTile RED 0 0)) \<and>
   iceLayer (addIce 2 (newTile RED 0 0)) = 2 \<and>
   isMatchable (addIce 2 (newTile RED 0 0)) \<and> canSwap (addIce 2 (newTile RED 0 0)) \<and>
   (\<exists>m. m \<in> set (findAllMatches (icedBoard 2)) \<and> matchType m = Horizontal \<and>
      (0, 0) \<in> set (tiles m) \<and> (1, 0) \<in> set (tiles m) \<and> (2, 0) \<in> set (tiles m))"
proof -
  note t = C3_locked_tile_never_matchable[of "lock (newTile RED 0 0)" fourBoard]
  note i = C3_locked_tile_never_matchable[of "addIce 2 (newTile RED 0 0)" "icedBoard 2"]
  have l: "isLocked (lock (newTile RED 0 0))" by code_simp
  have m: "fourMatch \<in> set (findAllMatches fourBoard)" by code_simp
  have p: "(2, 0) \<in> set (tiles fourMatch)" by code_simp
  have a: "\<not> isMatchable (lock (newTile RED 0 0)) \<and> \<not> canSwap (lock (newTile RED 0 0))"
    using conjunct1[OF t] l by simp
  have "\<forall>m \<in> set (findAllMatches fourBoard). \<forall>p \<in> set (tiles m).
      \<exists>u. getTile fourBoard (fst p) (snd p) = Some u \<and> isMatchable u \<and> \<not> isLocked u"
    by (rule conjunct1[OF conjunct2[OF t]])
  then have b: "\<exists>u. getTile fourBoard 2 0 = Some u \<and> isMatchable u \<and> \<not> isLocked u"
    using m p by fastforce
  have g0: "getTile (icedBoard 2) 0 0 = Some (addIce 2 (newTile RED 0 0))" by code_simp
  have g1: "getTile (icedBoard 2) (0 + 1) 0 = Some (newTile RED 1 0)" by code_simp
  have g2: "getTile (icedBoard 2) (0 + 2) 0 = Some (newTile RED 2 0)" by code_simp
  have ty: "tileType (addIce 2 (newTile RED 0 0)) \<in> set MATCHABLE_COLORS \<and>
            tileType (newTile RED 1 0) = tileType (addIce 2 (newTile RED 0 0)) \<and>
            tileType (newTile RED 2 0) = tileType (addIce 2 (newTile RED 0 0)) \<and>
            \<not> isLocked (addIce 2 (newTile RED 0 0)) \<and> \<not> isLocked (newTile RED 1 0) \<and>
            \<not> isLocked (newTile RED 2 0)" by code_simp
  have ice: "iceLayer (addIce 2 (newTile RED 0 0)) = 2" by code_simp
  have nf: "\<not> isFalling (addIce 2 (newTile RED 0 0))" by code_simp
  have sw: "isMatchable (addIce 2 (newTile RED 0 0)) \<and> canSwap (addIce 2 (newTile RED 0 0))"
    using conjunct1[OF conjunct2[OF conjunct2[OF conjunct2[OF conjunct2[OF i]]]]] ty nf by blast
  have hor: "\<forall>x y a b c.
      getTile (icedBoard 2) x y = Some a \<and> getTile (icedBoard 2) (x + 1) y = Some b \<and>
      getTile (icedBoard 2) (x + 2) y = Some c \<and>
      tileType a \<in> set MATCHABLE_COLORS \<and> tileType b = tileType a \<and> tileType c = tileType a \<and>
      \<not> isLocked a \<and> \<not> isLocked b \<and> \<not> isLocked c \<longrightarrow>
      (\<exists>m \<in> set (findAllMatches (icedBoard 2)). matchType m = Horizontal \<and>
         (x, y) \<in> set (tiles m) \<and> (x + 1, y) \<in> set (tiles m) \<and> (x + 2, y) \<in> set (tiles m))"
    by (rule conjunct1[OF conjunct2[OF conjunct2[OF conjunct2[OF conjunct2[OF conjunct2[OF i]]]]]])
  have "\<exists>m \<in> set (findAllMatches (icedBoard 2)). matchType m = Horizontal \<and>
         (0, 0) \<in> set (tiles m) \<and> (0 + 1, 0) \<in> set (tiles m) \<and> (0 + 2, 0) \<in> set (tiles m)"
    using hor g0 g1 g2 ty by blast
  then have c: "\<exists>m. m \<in> set (findAllMatches (icedBoard 2)) \<and> matchType m = Horizontal \<and>
      (0, 0) \<in> set (tiles m) \<and> (1, 0) \<in> set (tiles m) \<and> (2, 0) \<in> set (tiles m)"
    by (simp add: Bex_def)
  show ?thesis using l a m p b g0 ice sw c by blast
qed

text \<open>
  The claim as stated fails on ice: a red tile with two ice layers is matchable and
  swappable, and the scan reports the run it starts.
\<close>

theorem C3_iced_tile_counterexample:
  "iceLayer (addIce 2 (newTile RED 0 0)) > 0 \<and>
   isMatchable (addIce 2 (newTile RED 0 0)) \<and> canSwap (addIce 2 (newTile RED 0 0)) \<and>
   getTile (icedBoard 2) 0 0 = Some (addIce 2 (newTile RED 0 0)) \<and>
   findAllMatches (icedBoard 2) =
     [\<lparr>tiles = [(0, 0), (1, 0), (2, 0)], matchType = Horizontal, matchLength = 3, color = RED\<rparr>]"
  by code_simp

text \<open>
  Claim C4. A special tile that is matched clears its area of effect in the same round.
  The code never activates a special tile: \<open>processMatches\<close> and \<open>processCascades\<close> do not
  look at \<open>isSpecial\<close>, and \<open>getSpecialTileAffectedPositions\<close> has no caller. On
  \<open>bombBoard\<close> the bottom row is a red run whose middle tile is a bomb: only the three cells
  of the run are cleared and the row above, which lies in the bomb's 3x3 block, stays.
  The area that \<open>getSpecialTileAffectedPositions\<close> computes leaves out stones, the exit and
  tiles of type \<open>character\<close>, but the character's cell holds a tile of type \<open>empty\<close> and is
  part of the area (on \<open>lastMoveBoard\<close>, the cell (1, 1)).
\<close>

theorem C4_special_tile_not_activated:
  "map_option specialType (getTile bombBoard 1 2) = Some (Some BOMB) \<and>
   fst (snd (processMatches bombBoard (findAllMatches bombBoard))) = [(0, 2), (1, 2), (2, 2)] \<and>
   getSpecialTileAffectedPositions bombBoard 1 2 BOMB =
     [(0, 1), (1, 1), (2, 1), (0, 2), (1, 2), (2, 2)] \<and>
   (case clearMatches bombBoard (findAllMatches bombBoard) of
      Inl e \<Rightarrow> []
    | Inr g \<Rightarrow> typesOf g) =
     [[Some BLUE, Some GREEN, Some YELLOW],
      [Some GREEN, Some YELLOW, Some BLUE],
      [Some EMPTY, Some EMPTY, Some EMPTY]] \<and>
   characterPosition lastMoveBoard = Some (1, 1) \<and>
   (1, 1) \<in> set (getSpecialTileAffectedPositions lastMoveBoard 1 2 BOMB)"
  by code_simp

text \<open>
  Claim C5, as amended. In \<open>processMatches\<close> a matched cell whose tile has a positive ice
  count at the start of the round loses exactly one layer; the cell is kept out of the
  cleared positions exactly when the count was two or more. With a single layer the
  count drops to zero and the cell is cleared in the same round.
\<close>

theorem C5_ice_layer_absorbs_one_match:
  assumes "m \<in> set ms" "pos \<in> set (tiles m)"
    and "getTile g (fst pos) (snd pos) = Some t" "iceLayer t > 0"
  shows "\<exists>t'. getTile (fst (processMatches g ms)) (fst pos) (snd pos) = Some t' \<and>
           iceLayer t' = iceLayer t - 1 \<and>
           (pos \<in> set (fst (snd (processMatches g ms))) \<longleftrightarrow> iceLayer t = 1)"
proof -
  let ?r = "fold processMatch ms (g, {}, [], [])"
  have "iceInv4 g ?r"
    by (rule fold_list_inv[where P = "iceInv4 g"])
       (simp add: iceInv4_def iceInv_def, rule processMatch_iceInv4)
  then have inv: "iceInv g (fst ?r, fst (snd ?r), fst (snd (snd ?r)))" by (simp add: iceInv4_def)
  have "pos \<in> fst (snd ?r)"
    using fold_processMatch_processed[of "(g, {}, [], [])" ms] assms(1,2) by auto
  moreover have "iceAt g pos = Some (iceLayer t)" using assms(3) by (simp add: iceAt_def)
  ultimately have "iceAt (fst ?r) pos = Some (iceLayer t - 1) \<and>
      (pos \<in> set (fst (snd (snd ?r))) \<longleftrightarrow> iceLayer t = 1)"
    using inv assms(4) unfolding iceInv_def by auto
  then show ?thesis by (auto simp: processMatches_def Let_def iceAt_def)
qed

theorem C5_ice_layer_absorbs_one_match_witness:
  "\<lparr>tiles = [(0, 0), (1, 0), (2, 0)], matchType = Horizontal, matchLength = 3, color = RED\<rparr>
     \<in> set (findAllMatches (icedBoard 2)) \<and>
   getTile (icedBoard 2) 0 0 = Some (addIce 2 (newTile RED 0 0)) \<and>
   iceLayer (addIce 2 (newTile RED 0 0)) = 2 \<and>
   (\<exists>t'. getTile (fst (processMatches (icedBoard 2) (findAllMatches (icedBoard 2)))) 0 0 = Some t' \<and>
         iceLayer t' = 1 \<and>
         (0, 0) \<notin> set (fst (snd (processMatches (icedBoard 2) (findAllMatches (icedBoard 2))))))"
proof -
  let ?m = "\<lparr>tiles = [(0, 0), (1, 0), (2, 0)], matchType = Horizontal, matchLength = 3,
              color = RED\<rparr>"
  have m: "?m \<in> set (findAllMatches (icedBoard 2))" by code_simp
  have p: "(0, 0) \<in> set (tiles ?m)" by simp
  have t: "getTile (icedBoard 2) (fst (0, 0)) (snd (0, 0)) = Some (addIce 2 (newTile RED 0 0))"
    by code_simp
  have i: "iceLayer (addIce 2 (newTile RED 0 0)) = 2" by code_simp
  have pos: "iceLayer (addIce 2 (newTile RED 0 0)) > 0" by code_simp
  from C5_ice_layer_absorbs_one_match[OF m p t pos] i
  have "\<exists>t'. getTile (fst (processMatches (icedBoard 2) (findAllMatches (icedBoard 2)))) 0 0 = Some t' \<and>
         iceLayer t' = 1 \<and>
         (0, 0) \<notin> set (fst (snd (processMatches (icedBoard 2) (findAllMatches (icedBoard 2)))))"
    by auto
  then show ?thesis using m t i by simp
qed

text \<open>
  The claim as stated fails for a single layer: the matched tile at (0, 0) has
  \<open>iceLayer = 1\<close> and its cell is among the cleared positions of the round.
\<close>

theorem C5_single_ice_layer_counterexample:
  "map_option iceLayer (getTile (icedBoard 1) 0 0) = Some 1 \<and>
   (0, 0) \<in> set (tiles (hd (findAllMatches (icedBoard 1)))) \<and>
   fst (snd (processMatches (icedBoard 1) (findAllMatches (icedBoard 1)))) =
     [(0, 0), (1, 0), (2, 0)]"
  by code_simp

text \<open>
  Claim C6. Every match that \<open>findAllMatches\<close> reports has at least three cells, as many
  as its \<open>length\<close> says, consecutive along its row (column) from some start \<open>s\<close>. A
  length of five or more gives a bomb and a length of four a line clear of the other
  orientation (a horizontal run the vertical one), both placed on the cell of index
  \<open>length div 2\<close> of the run; a length of three gives no special tile. \<open>processMatches\<close>
  returns exactly these special tiles, one for each match that has one, in the order of
  the matches.
\<close>

theorem C6_special_tile_for_match:
  assumes "m \<in> set (findAllMatches g)"
  shows "matchLength m \<ge> 3 \<and> int (length (tiles m)) = matchLength m \<and>
    (\<exists>s c. tiles m = (if matchType m = Horizontal then map (\<lambda>i. (i, c)) [s..s + matchLength m - 1]
                       else map (\<lambda>j. (c, j)) [s..s + matchLength m - 1]) \<and>
       getSpecialTileForMatch m =
         (if matchLength m \<ge> 5 then
            Some \<lparr>specialKind = BOMB,
                  position = Some (if matchType m = Horizontal then (s + matchLength m div 2, c)
                                   else (c, s + matchLength m div 2)),
                  specialColor = color m\<rparr>
          else if matchLength m = 4 then
            Some \<lparr>specialKind = (if matchType m = Horizontal then LINE_V else LINE_H),
                  position = Some (if matchType m = Horizontal then (s + 2, c) else (c, s + 2)),
                  specialColor = color m\<rparr>
          else None)) \<and>
    snd (snd (processMatches g (findAllMatches g))) =
      List.map_filter getSpecialTileForMatch (findAllMatches g)"
  using findAllMatches_specialSpec[of g] assms processMatches_specials[of g "findAllMatches g"]
  unfolding specialSpec_def by blast

theorem C6_special_tile_for_match_witness:
  "fourMatch \<in> set (findAllMatches fourBoard) \<and>
   matchLength fourMatch \<ge> 3 \<and> int (length (tiles fourMatch)) = matchLength fourMatch \<and>
   snd (snd (processMatches fourBoard (findAllMatches fourBoard))) =
     List.map_filter getSpecialTileForMatch (findAllMatches fourBoard) \<and>
   getSpecialTileForMatch fourMatch =
     Some \<lparr>specialKind = LINE_V, position = Some (2, 0), specialColor = RED\<rparr>"
proof -
  have m: "fourMatch \<in> set (findAllMatches fourBoard)" by code_simp
  have s: "getSpecialTileForMatch fourMatch =
     Some \<lparr>specialKind = LINE_V, position = Some (2, 0), specialColor = RED\<rparr>" by code_simp
  from C6_special_tile_for_match[OF m]
  have "matchLength fourMatch \<ge> 3 \<and> int (length (tiles fourMatch)) = matchLength fourMatch \<and>
    snd (snd (processMatches fourBoard (findAllMatches fourBoard))) =
      List.map_filter getSpecialTileForMatch (findAllMatches fourBoard)" by blast
  then show ?thesis using m s by blast
qed




text \<open>
  Claim C8. After any number \<open>n\<close> of calls of \<open>processGravity\<close>, on any grid and for any
  random draws, every cell that held the exit tile or a stone blocker holds the same tile,
  the character's cell is the same, no movement record has the character's cell as its
  destination and no spawn record lies on it.
\<close>

theorem C8_gravity_keeps_fixed_cells:
  "(\<forall>x y t. getTile g x y = Some t \<and> (isExit t \<or> isBlocker t) \<longrightarrow>
        getTile (fst (processGravityTimes n rnd g)) x y = Some t) \<and>
   characterPosition (fst (processGravityTimes n rnd g)) = characterPosition g \<and>
   (\<forall>m \<in> set (fst (snd (snd (processGravityTimes n rnd g)))).
        Some (toX m, toY m) \<noteq> characterPosition g) \<and>
   (\<forall>s \<in> set (snd (snd (snd (processGravityTimes n rnd g)))).
        Some (spawnX s, spawnY s) \<noteq> characterPosition g)"
  using processGravityTimes_keeps[OF keepsFixed_refl, of g n rnd]
  by (auto simp: keepsFixed_def fixedTile_def safeMoves_def safeSpawns_def)

theorem C8_gravity_keeps_fixed_cells_witness:
  "getTile gravityBoard 1 0 = Some (newTile EXIT 1 0) \<and> isExit (newTile EXIT 1 0) \<and>
   getTile gravityBoard 0 1 = Some (newTile STONE 0 1) \<and> isBlocker (newTile STONE 0 1) \<and>
   characterPosition gravityBoard = Some (1, 1) \<and>
   fst (snd (snd (processGravityTimes 2 (\<lambda>n. 0) gravityBoard))) \<noteq> [] \<and>
   snd (snd (snd (processGravityTimes 2 (\<lambda>n. 0) gravityBoard))) \<noteq> [] \<and>
   getTile (fst (processGravityTimes 2 (\<lambda>n. 0) gravityBoard)) 1 0 = Some (newTile EXIT 1 0) \<and>
   getTile (fst (processGravityTimes 2 (\<lambda>n. 0) gravityBoard)) 0 1 = Some (newTile STONE 0 1) \<and>
   characterPosition (fst (processGravityTimes 2 (\<lambda>n. 0) gravityBoard)) = Some (1, 1) \<and>
   list_all (\<lambda>m. (toX m, toY m) \<noteq> (1, 1))
     (fst (snd (snd (processGravityTimes 2 (\<lambda>n. 0) gravityBoard)))) \<and>
   list_all (\<lambda>s. (spawnX s, spawnY s) \<noteq> (1, 1))
     (snd (snd (snd (processGravityTimes 2 (\<lambda>n. 0) gravityBoard))))"
proof -
  let ?r = "processGravityTimes 2 (\<lambda>n. 0) gravityBoard"
  have e: "getTile gravityBoard 1 0 = Some (newTile EXIT 1 0)" "isExit (newTile EXIT 1 0)"
    by code_simp+
  have s: "getTile gravityBoard 0 1 = Some (newTile STONE 0 1)" "isBlocker (newTile STONE 0 1)"
    by code_simp+
  have c: "characterPosition gravityBoard = Some (1, 1)" by code_simp
  have m: "fst (snd (snd ?r)) \<noteq> []" by code_simp
  have n: "snd (snd (snd ?r)) \<noteq> []" by code_simp
  note t = C8_gravity_keeps_fixed_cells[of gravityBoard 2 "\<lambda>n. 0"]
  have t1: "\<And>x y t. getTile gravityBoard x y = Some t \<and> (isExit t \<or> isBlocker t) \<Longrightarrow>
              getTile (fst ?r) x y = Some t"
    using conjunct1[OF t] by simp
  have e': "getTile (fst ?r) 1 0 = Some (newTile EXIT 1 0)" using t1[of 1 0] e by simp
  have s': "getTile (fst ?r) 0 1 = Some (newTile STONE 0 1)" using t1[of 0 1] s by simp
  have c': "characterPosition (fst ?r) = Some (1, 1)"
    using conjunct1[OF conjunct2[OF t]] c by simp
  have m': "list_all (\<lambda>m. (toX m, toY m) \<noteq> (1, 1)) (fst (snd (snd ?r)))"
    using conjunct1[OF conjunct2[OF conjunct2[OF t]]] c by (simp add: list_all_iff)
  have n': "list_all (\<lambda>s. (spawnX s, spawnY s) \<noteq> (1, 1)) (snd (snd (snd ?r)))"
    using conjunct2[OF conjunct2[OF conjunct2[OF t]]] c by (simp add: list_all_iff)
  show ?thesis using e s c m n e' s' c' m' n' by simp
qed

text \<open>
  Claim C9, as amended. For a level whose blockers are not of a matchable colour (stone, ice
  and locked are the blocker types) and whose palette lists no colour twice, and for every
  outcome of the random draws: when \<open>initialize\<close> returns (no coordinate named a row that
  does not exist) and no cell took the fallback to the whole palette, the scan of the
  grid finds no match; and with three or more colours in the palette no cell takes the
  fallback.
\<close>

theorem C9_initialize_has_no_matches:
  assumes init: "initialize g0 cfg rnd = Inr (g, rnd', fallbacks)"
    and blk: "\<forall>b \<in> set (case levelBlockers cfg of None \<Rightarrow> [] | Some l \<Rightarrow> l).
                blockerType b \<notin> set MATCHABLE_COLORS"
    and pal: "distinct (case levelTileTypes cfg of None \<Rightarrow> MATCHABLE_COLORS | Some l \<Rightarrow> l)"
  shows "(fallbacks = [] \<longrightarrow> findAllMatches g = []) \<and>
         (3 \<le> length (case levelTileTypes cfg of None \<Rightarrow> MATCHABLE_COLORS | Some l \<Rightarrow> l)
            \<longrightarrow> fallbacks = [])"
proof -
  let ?bs = "case levelBlockers cfg of None \<Rightarrow> [] | Some l \<Rightarrow> l"
  let ?ep = "case levelExitPosition cfg of None \<Rightarrow> (width g0 div 2, 0) | Some p \<Rightarrow> p"
  let ?cs = "case levelCharacterStart cfg of None \<Rightarrow> (width g0 div 2, height g0 - 1) | Some p \<Rightarrow> p"
  let ?tps = "case levelTileTypes cfg of None \<Rightarrow> MATCHABLE_COLORS | Some l \<Rightarrow> l"
  let ?g1 = "g0\<lparr>tileTypes := Some ?tps, exitPosition := ?ep, characterPosition := Some ?cs,
                  grid := (\<lambda>y x. None)\<rparr>"
  let ?r2 = "fold (\<lambda>b. assignCell (blockerX b) (blockerY b) (blockerTile b)) ?bs (Inr ?g1)"
  let ?r3 = "assignCell (fst ?ep) (snd ?ep) (newTile EXIT (fst ?ep) (snd ?ep)) ?r2"
  let ?r4 = "assignCell (fst ?cs) (snd ?cs) (newTile EMPTY (fst ?cs) (snd ?cs)) ?r3"
  let ?w = "width g0" and ?h = "height g0"
  have p1: "preOK ?w ?h (Inr ?g1)" by (auto simp: preOK_def preplaced_def)
  have p2: "preOK ?w ?h ?r2"
  proof (rule fold_list_inv[where P = "preOK ?w ?h"])
    show "preOK ?w ?h (Inr ?g1)" by (rule p1)
  next
    fix b t assume "b \<in> set ?bs" "preOK ?w ?h t"
    then show "preOK ?w ?h (assignCell (blockerX b) (blockerY b) (blockerTile b) t)"
      using blk by (intro assignCell_preOK blockerTile_not_matchable) auto
  qed
  have p4: "preOK ?w ?h ?r4"
    by (intro assignCell_preOK p2 fixed_tiles_not_matchable)
  from init obtain g4 where g4: "?r4 = Inr g4"
    and res: "(g, rnd', fallbacks) =
       fold (\<lambda>y. fold (fillCell ?tps y) [0..width g4 - 1]) [0..height g4 - 1] (g4, rnd, [])"
    unfolding initialize_def Let_def by (auto split: sum.splits)
  have pre: "width g4 = ?w" "height g4 = ?h" "\<forall>x y. preplaced g4 x y"
    using p4 g4 by (auto simp: preOK_def)
  have second: "3 \<le> length ?tps \<longrightarrow> fallbacks = []"
  proof
    assume "3 \<le> length ?tps"
    then have "snd (snd (fold (\<lambda>y. fold (fillCell ?tps y) [0..width g4 - 1]) [0..height g4 - 1] (g4, rnd, []))) = []"
      by (rule fill_no_fallback) simp
    then show "fallbacks = []" using res by (metis snd_conv)
  qed
  have first: "fallbacks = [] \<longrightarrow> findAllMatches g = []"
  proof
    assume fb: "fallbacks = []"
    show "findAllMatches g = []"
    proof (cases "0 \<le> ?w \<and> 0 \<le> ?h")
      case True
      have i0: "fillInv ?w ?h 0 0 (g4, rnd, [])" using pre by (simp add: fillInv_def)
      have "fillInv ?w ?h ?h 0 (fold (\<lambda>y. fold (fillCell ?tps y) [0..?w - 1]) [0..?h - 1] (g4, rnd, []))"
        using True by (intro fill_fillInv[OF pal i0]) auto
      then have "fillInv ?w ?h ?h 0 (g, rnd', [])" using res pre fb by simp
      then show ?thesis by (rule fillInv_final)
    next
      case False
      have "width g = width g4 \<and> height g = height g4"
        using fill_dims[of ?tps "[0..width g4 - 1]" "[0..height g4 - 1]" "(g4, rnd, [])"] res
        by (metis fst_conv)
      then have "\<forall>x y. \<not> isValidPosition g x y" using False pre
        by (auto simp: isValidPosition_def)
      then show ?thesis by (rule no_valid_no_matches)
    qed
  qed
  show ?thesis using first second by simp
qed

theorem C9_initialize_has_no_matches_witness:
  "list_all (\<lambda>b. blockerType b \<notin> set MATCHABLE_COLORS)
     (case levelBlockers smallLevel of None \<Rightarrow> [] | Some l \<Rightarrow> l) \<and>
   levelTileTypes smallLevel = Some [RED, BLUE, GREEN] \<and> distinct [RED, BLUE, GREEN] \<and>
   (\<exists>g r fb. initialize (emptyManager 3 3) smallLevel (\<lambda>n. 0) = Inr (g, r, fb) \<and>
      fb = [] \<and> findAllMatches g = [] \<and>
      typesOf g = [[Some RED, Some EXIT, Some RED],
                   [Some STONE, Some RED, Some RED],
                   [Some RED, Some EMPTY, Some BLUE]])"
proof -
  have ok: "case initialize (emptyManager 3 3) smallLevel (\<lambda>n. 0) of
              Inl e \<Rightarrow> False
            | Inr r \<Rightarrow> typesOf (fst r) = [[Some RED, Some EXIT, Some RED],
                                        [Some STONE, Some RED, Some RED],
                                        [Some RED, Some EMPTY, Some BLUE]]"
    by code_simp
  then obtain g r fb where i: "initialize (emptyManager 3 3) smallLevel (\<lambda>n. 0) = Inr (g, r, fb)"
    and ty: "typesOf g = [[Some RED, Some EXIT, Some RED],
                          [Some STONE, Some RED, Some RED],
                          [Some RED, Some EMPTY, Some BLUE]]"
    by (cases "initialize (emptyManager 3 3) smallLevel (\<lambda>n. 0)") auto
  have blk: "\<forall>b \<in> set (case levelBlockers smallLevel of None \<Rightarrow> [] | Some l \<Rightarrow> l).
               blockerType b \<notin> set MATCHABLE_COLORS"
    by code_simp
  have pal: "distinct (case levelTileTypes smallLevel of None \<Rightarrow> MATCHABLE_COLORS | Some l \<Rightarrow> l)"
    by code_simp
  have len: "3 \<le> length (case levelTileTypes smallLevel of None \<Rightarrow> MATCHABLE_COLORS | Some l \<Rightarrow> l)"
    by code_simp
  have tt: "levelTileTypes smallLevel = Some [RED, BLUE, GREEN]" by code_simp
  from C9_initialize_has_no_matches[OF i blk pal] len
  have "fb = []" "findAllMatches g = []" by auto
  then have "\<exists>g r fb. initialize (emptyManager 3 3) smallLevel (\<lambda>n. 0) = Inr (g, r, fb) \<and>
      fb = [] \<and> findAllMatches g = [] \<and>
      typesOf g = [[Some RED, Some EXIT, Some RED],
                   [Some STONE, Some RED, Some RED],
                   [Some RED, Some EMPTY, Some BLUE]]"
    using i ty by blast
  then show ?thesis using blk tt by (simp add: list_all_iff)
qed

text \<open>
  The claim as stated, for every level configuration, fails without any fallback. With
  red listed twice in a palette of three entries, removing one occurrence leaves red among
  the candidates, and the draw 0 completes runs of red; and three red blockers in a row
  are a run that the filling loop never looks at.
\<close>

theorem C9_repeated_colour_counterexample:
  "levelBlockers repeatedLevel = None \<and> levelTileTypes repeatedLevel = Some [RED, RED, BLUE] \<and>
   (case initialize (emptyManager 3 3) repeatedLevel (\<lambda>n. 0) of
      Inl e \<Rightarrow> False
    | Inr (g, r, fallbacks) \<Rightarrow>
        fallbacks = [] \<and>
        typesOf g = [[Some RED, Some EXIT, Some RED],
                     [Some RED, Some RED, Some RED],
                     [Some RED, Some EMPTY, Some RED]] \<and>
        findAllMatches g =
          [\<lparr>tiles = [(0, 1), (1, 1), (2, 1)], matchType = Horizontal, matchLength = 3, color = RED\<rparr>,
           \<lparr>tiles = [(0, 0), (0, 1), (0, 2)], matchType = Vertical, matchLength = 3, color = RED\<rparr>,
           \<lparr>tiles = [(2, 0), (2, 1), (2, 2)], matchType = Vertical, matchLength = 3, color = RED\<rparr>]) \<and>
   map blockerType (case levelBlockers redBlockerLevel of None \<Rightarrow> [] | Some l \<Rightarrow> l) = [RED, RED, RED] \<and>
   levelTileTypes redBlockerLevel = Some [RED, BLUE, GREEN] \<and>
   (case initialize (emptyManager 3 3) redBlockerLevel (\<lambda>n. 0) of
      Inl e \<Rightarrow> False
    | Inr (g, r, fallbacks) \<Rightarrow>
        fallbacks = [] \<and>
        typesOf g = [[Some RED, Some EXIT, Some RED],
                     [Some RED, Some RED, Some RED],
                     [Some BLUE, Some EMPTY, Some BLUE]] \<and>
        findAllMatches g =
          [\<lparr>tiles = [(0, 1), (1, 1), (2, 1)], matchType = Horizontal, matchLength = 3, color = RED\<rparr>])"
  by code_simp

text \<open>
  Claim C10. \<open>applyGravityFully\<close> is a total function (its termination is proved with its
  definition): it returns after at most \<open>potential g\<close> passes that moved a tile and one
  that moved none. On the grid it returns a further pass moves nothing and changes
  nothing, and no tile that can fall stands anywhere above an empty cell that is not fixed
  in the same column.
\<close>

theorem C10_gravity_reaches_fixed_point:
  "length (snd (applyGravityFully g)) \<le> potential g \<and>
   applyGravity (fst (applyGravityFully g)) = (fst (applyGravityFully g), []) \<and>
   (\<forall>x e s. emptyCell (fst (applyGravityFully g)) x e \<and> 0 \<le> s \<and> s < e \<longrightarrow>
             \<not> canFall (fst (applyGravityFully g)) x s)"
proof -
  let ?g = "fst (applyGravityFully g)"
  have s: "snd (applyGravity ?g) = []" and l: "length (snd (applyGravityFully g)) \<le> potential g"
    using applyGravityFully_stable[of g] by auto
  have "fst (applyGravity ?g) = ?g" by (rule applyGravity_no_movement[OF s])
  then have "applyGravity ?g = (?g, [])" using s by (metis prod.collapse)
  then show ?thesis using l applyGravity_fixed_point[OF s] by simp
qed

theorem C10_gravity_reaches_fixed_point_witness:
  "typesOf (fst (applyGravityFully stoneColumn)) = [[Some STONE], [Some EMPTY], [Some RED], [Some BLUE]] \<and>
   length (snd (applyGravityFully stoneColumn)) = 2 \<and>
   emptyCell (fst (applyGravityFully stoneColumn)) 0 1 \<and>
   \<not> canFall (fst (applyGravityFully stoneColumn)) 0 0"
proof -
  have a: "typesOf (fst (applyGravityFully stoneColumn)) = [[Some STONE], [Some EMPTY], [Some RED], [Some BLUE]]"
    by code_simp
  have b: "length (snd (applyGravityFully stoneColumn)) = 2" by code_simp
  have c: "emptyCell (fst (applyGravityFully stoneColumn)) 0 1" by code_simp
  from C10_gravity_reaches_fixed_point[of stoneColumn] c
  have "\<not> canFall (fst (applyGravityFully stoneColumn)) 0 0" by force
  then show ?thesis using a b c by blast
qed

end
